theory Spec2Isabelle
  imports Main "HOL-Library.Log_Nat" "HOL-Library.Multiset"
begin

section \<open>Machine integers\<close>

text \<open>
  \<^verbatim>\<open>using Price = int; using Quantity = int;\<close> are 32-bit signed integers. Signed overflow
  is undefined behaviour in C++, so the model computes in the mathematical integers and
  makes every arithmetic result that leaves the 32-bit range an error value: the program
  has no defined result there. The latency samples are \<^verbatim>\<open>long long\<close> (64 bits), with the
  same treatment. Reading a vector beyond its size and converting a \<^verbatim>\<open>double\<close> that does
  not fit the target integer type are undefined as well, and errors of the model.
\<close>

type_synonym Price = int
type_synonym Quantity = int

datatype error = SignedOverflow | IndexOutOfRange | ConversionOutOfRange

definition INT_MIN :: int where
  "INT_MIN = - (2 ^ 31)"

definition INT_MAX :: int where
  "INT_MAX = 2 ^ 31 - 1"

definition is_int :: "int \<Rightarrow> bool" where
  "is_int x \<longleftrightarrow> INT_MIN \<le> x \<and> x \<le> INT_MAX"

definition int_add :: "int \<Rightarrow> int \<Rightarrow> error + int" where
  "int_add a b = (if is_int (a + b) then Inr (a + b) else Inl SignedOverflow)"

definition int_sub :: "int \<Rightarrow> int \<Rightarrow> error + int" where
  "int_sub a b = (if is_int (a - b) then Inr (a - b) else Inl SignedOverflow)"

section \<open>Orders and the order book\<close>

datatype Side = BUY | SELL

text \<open>
  \<^verbatim>\<open>struct Order\<close>. The field \<^verbatim>\<open>id\<close> is named \<open>order_id\<close> here (\<open>id\<close> is the identity
  function of HOL); the three time points are counted in clock ticks.
\<close>

record Order =
  order_id :: nat
  side :: Side
  price :: Price
  quantity :: Quantity
  timestamp_produce :: int
  timestamp_consume :: int
  timestamp_processed :: int

text \<open>
  \<^verbatim>\<open>std::map<Price, Quantity>\<close> is an ordered map: iterating from \<^verbatim>\<open>begin()\<close> visits the
  keys in ascending order, from \<^verbatim>\<open>rbegin()\<close> in descending order. It is modelled by the
  list of its entries in iteration order (ascending keys, no key twice).
\<close>

type_synonym levels = "(Price \<times> Quantity) list"

definition wf_levels :: "levels \<Rightarrow> bool" where
  "wf_levels m \<longleftrightarrow> sorted_wrt (<) (map fst m)"

record OrderBook =
  bids :: levels
  asks :: levels

definition empty_book :: OrderBook where
  "empty_book = \<lparr>bids = [], asks = []\<rparr>"

definition wf_book :: "OrderBook \<Rightarrow> bool" where
  "wf_book b \<longleftrightarrow> wf_levels (bids b) \<and> wf_levels (asks b)"

text \<open>
  \<^verbatim>\<open>m[price] += quantity\<close>: \<^verbatim>\<open>operator[]\<close> finds the entry of the key, inserting one with
  value 0 at its place in the order when there is none, and the quantity is added to it.
\<close>

fun map_add_assign :: "Price \<Rightarrow> Quantity \<Rightarrow> levels \<Rightarrow> error + levels" where
  "map_add_assign k q [] =
     (case int_add 0 q of Inl e \<Rightarrow> Inl e | Inr v \<Rightarrow> Inr [(k, v)])"
| "map_add_assign k q ((k', v') # m) =
     (if k < k' then
        (case int_add 0 q of Inl e \<Rightarrow> Inl e | Inr v \<Rightarrow> Inr ((k, v) # (k', v') # m))
      else if k = k' then
        (case int_add v' q of Inl e \<Rightarrow> Inl e | Inr v \<Rightarrow> Inr ((k', v) # m))
      else
        (case map_add_assign k q m of Inl e \<Rightarrow> Inl e | Inr m' \<Rightarrow> Inr ((k', v') # m')))"

definition add_to_book :: "Price \<Rightarrow> Quantity \<Rightarrow> Side \<Rightarrow> OrderBook \<Rightarrow> error + OrderBook" where
  "add_to_book p q s b =
     (if s = BUY then
        (case map_add_assign p q (bids b) of Inl e \<Rightarrow> Inl e | Inr m \<Rightarrow> Inr (b\<lparr>bids := m\<rparr>))
      else
        (case map_add_assign p q (asks b) of Inl e \<Rightarrow> Inl e | Inr m \<Rightarrow> Inr (b\<lparr>asks := m\<rparr>)))"

text \<open>
  The loop of \<^verbatim>\<open>match_buy\<close>, from the iterator's position on: the argument is the list of the
  ask levels not yet visited, lowest price first, and the result is the order and what is
  left of these levels when the loop ends. \<^verbatim>\<open>erase\<close> drops the level and moves on,
  \<^verbatim>\<open>++ask_iter\<close> keeps it and moves on.
\<close>

fun match_buy_loop :: "Order \<Rightarrow> levels \<Rightarrow> error + (Order \<times> levels)" where
  "match_buy_loop buy_order [] = Inr (buy_order, [])"
| "match_buy_loop buy_order ((ask_price, ask_quantity) # rest) =
     (if \<not> quantity buy_order > 0 then Inr (buy_order, (ask_price, ask_quantity) # rest)
      else if price buy_order < ask_price then Inr (buy_order, (ask_price, ask_quantity) # rest)
      else
        let matched_quantity = min (quantity buy_order) ask_quantity in
        case int_sub (quantity buy_order) matched_quantity of
          Inl e \<Rightarrow> Inl e
        | Inr q' \<Rightarrow>
            (case int_sub ask_quantity matched_quantity of
               Inl e \<Rightarrow> Inl e
             | Inr aq' \<Rightarrow>
                 if aq' = 0 then match_buy_loop (buy_order\<lparr>quantity := q'\<rparr>) rest
                 else
                   (case match_buy_loop (buy_order\<lparr>quantity := q'\<rparr>) rest of
                      Inl e \<Rightarrow> Inl e
                    | Inr (order', rest') \<Rightarrow> Inr (order', (ask_price, aq') # rest'))))"

definition match_buy :: "Order \<Rightarrow> OrderBook \<Rightarrow> error + (Order \<times> OrderBook)" where
  "match_buy buy_order b =
     (case match_buy_loop buy_order (asks b) of
        Inl e \<Rightarrow> Inl e
      | Inr (order', asks') \<Rightarrow>
          if quantity order' > 0 then
            (case add_to_book (price order') (quantity order') BUY (b\<lparr>asks := asks'\<rparr>) of
               Inl e \<Rightarrow> Inl e
             | Inr b' \<Rightarrow> Inr (order', b'))
          else Inr (order', b\<lparr>asks := asks'\<rparr>))"

text \<open>
  The loop of \<^verbatim>\<open>match_sell\<close> walks the bids with a reverse iterator: the argument is the list
  of the bid levels not yet visited, highest price first.
\<close>

fun match_sell_loop :: "Order \<Rightarrow> levels \<Rightarrow> error + (Order \<times> levels)" where
  "match_sell_loop sell_order [] = Inr (sell_order, [])"
| "match_sell_loop sell_order ((bid_price, bid_quantity) # rest) =
     (if \<not> quantity sell_order > 0 then Inr (sell_order, (bid_price, bid_quantity) # rest)
      else if price sell_order > bid_price then Inr (sell_order, (bid_price, bid_quantity) # rest)
      else
        let matched_quantity = min (quantity sell_order) bid_quantity in
        case int_sub (quantity sell_order) matched_quantity of
          Inl e \<Rightarrow> Inl e
        | Inr q' \<Rightarrow>
            (case int_sub bid_quantity matched_quantity of
               Inl e \<Rightarrow> Inl e
             | Inr bq' \<Rightarrow>
                 if bq' = 0 then match_sell_loop (sell_order\<lparr>quantity := q'\<rparr>) rest
                 else
                   (case match_sell_loop (sell_order\<lparr>quantity := q'\<rparr>) rest of
                      Inl e \<Rightarrow> Inl e
                    | Inr (order', rest') \<Rightarrow> Inr (order', (bid_price, bq') # rest'))))"

definition match_sell :: "Order \<Rightarrow> OrderBook \<Rightarrow> error + (Order \<times> OrderBook)" where
  "match_sell sell_order b =
     (case match_sell_loop sell_order (rev (bids b)) of
        Inl e \<Rightarrow> Inl e
      | Inr (order', rbids') \<Rightarrow>
          if quantity order' > 0 then
            (case add_to_book (price order') (quantity order') SELL (b\<lparr>bids := rev rbids'\<rparr>) of
               Inl e \<Rightarrow> Inl e
             | Inr b' \<Rightarrow> Inr (order', b'))
          else Inr (order', b\<lparr>bids := rev rbids'\<rparr>))"

definition process_order :: "Order \<Rightarrow> OrderBook \<Rightarrow> error + (Order \<times> OrderBook)" where
  "process_order order b =
     (if side order = BUY then match_buy order b else match_sell order b)"

text \<open>
  The matching engine (\<^verbatim>\<open>consumer_thread\<close>) owns the book: it starts from the empty book
  and passes every order it takes from the queue to \<^verbatim>\<open>process_order\<close>, one after the other.
\<close>

fun process_all :: "Order list \<Rightarrow> OrderBook \<Rightarrow> error + OrderBook" where
  "process_all [] b = Inr b"
| "process_all (order # orders) b =
     (case process_order order b of
        Inl e \<Rightarrow> Inl e
      | Inr (order', b') \<Rightarrow> process_all orders b')"

text \<open>The top of the book as \<^verbatim>\<open>print_top_of_book\<close> reads it: \<^verbatim>\<open>bids.rbegin()\<close> and
  \<^verbatim>\<open>asks.begin()\<close>, when the side is not empty.\<close>

definition best_bid :: "OrderBook \<Rightarrow> (Price \<times> Quantity) option" where
  "best_bid b = (if bids b = [] then None else Some (last (bids b)))"

definition best_ask :: "OrderBook \<Rightarrow> (Price \<times> Quantity) option" where
  "best_ask b = (if asks b = [] then None else Some (hd (asks b)))"

text \<open>An order with the given side, quantity and price, for the scenarios.\<close>

definition mk_order :: "Side \<Rightarrow> Quantity \<Rightarrow> Price \<Rightarrow> Order" where
  "mk_order s q p =
     \<lparr>order_id = 0, side = s, price = p, quantity = q,
      timestamp_produce = 0, timestamp_consume = 0, timestamp_processed = 0\<rparr>"

section \<open>Properties of books\<close>

text \<open>A book is crossed when the best bid is at or above the best ask.\<close>

definition uncrossed :: "OrderBook \<Rightarrow> bool" where
  "uncrossed b \<longleftrightarrow>
     (bids b \<noteq> [] \<and> asks b \<noteq> [] \<longrightarrow> fst (last (bids b)) < fst (hd (asks b)))"

text \<open>The total quantity resting on one side, and sides without empty or negative levels.\<close>

definition total_quantity :: "levels \<Rightarrow> int" where
  "total_quantity m = sum_list (map snd m)"

definition positive_levels :: "levels \<Rightarrow> bool" where
  "positive_levels m \<longleftrightarrow> (\<forall>x\<in>set m. 0 < snd x)"

definition positive_book :: "OrderBook \<Rightarrow> bool" where
  "positive_book b \<longleftrightarrow> positive_levels (bids b) \<and> positive_levels (asks b)"

section \<open>Matching as the specification words it\<close>

text \<open>
  The specification's description of the matching, on the mathematical integers, to compare
  the functions above with. Adding to a side: the quantity is "aggregated into an existing
  level or creates a new one".
\<close>

definition spec_add_level :: "Price \<Rightarrow> Quantity \<Rightarrow> levels \<Rightarrow> levels" where
  "spec_add_level p q m =
     (if p \<in> fst ` set m then map (\<lambda>(k, v). if k = p then (k, v + q) else (k, v)) m
      else insort_key fst (p, q) m)"

text \<open>
  The scan over the opposing levels, best price first: "while remaining quantity > 0 and the
  current level price" is one the order crosses, "matched = min(remaining order quantity,
  level quantity); subtract matched from both; if level quantity reaches 0, remove the level;
  else advance"; the scan stops at the first level the order does not cross, or when the
  levels are exhausted.
\<close>

fun spec_scan :: "(Price \<Rightarrow> bool) \<Rightarrow> Quantity \<Rightarrow> levels \<Rightarrow> Quantity \<times> levels" where
  "spec_scan crosses remaining [] = (remaining, [])"
| "spec_scan crosses remaining ((p, lq) # ls) =
     (if 0 < remaining \<and> crosses p then
        (let matched = min remaining lq in
           if lq - matched = 0 then spec_scan crosses (remaining - matched) ls
           else (case spec_scan crosses (remaining - matched) ls of
                   (r, ls') \<Rightarrow> (r, (p, lq - matched) # ls')))
      else (remaining, (p, lq) # ls))"

text \<open>
  \<open>match_buy\<close> scans the asks from the lowest price upward, while the ask price is at most
  the order price; \<open>match_sell\<close> scans the bids from the highest price downward, while the
  bid price is at least the order price. "Any quantity remaining after the scan is added"
  to the order's own side at the order price.
\<close>

definition spec_match_buy :: "Price \<Rightarrow> Quantity \<Rightarrow> OrderBook \<Rightarrow> OrderBook" where
  "spec_match_buy p q b =
     (case spec_scan (\<lambda>ask_price. ask_price \<le> p) q (asks b) of
        (r, asks') \<Rightarrow>
          \<lparr>bids = (if 0 < r then spec_add_level p r (bids b) else bids b), asks = asks'\<rparr>)"

definition spec_match_sell :: "Price \<Rightarrow> Quantity \<Rightarrow> OrderBook \<Rightarrow> OrderBook" where
  "spec_match_sell p q b =
     (case spec_scan (\<lambda>bid_price. p \<le> bid_price) q (rev (bids b)) of
        (r, rbids') \<Rightarrow>
          \<lparr>bids = rev rbids', asks = (if 0 < r then spec_add_level p r (asks b) else asks b)\<rparr>)"

section \<open>The latency statistics\<close>

subsection \<open>64-bit integers\<close>

definition LLONG_MIN :: int where
  "LLONG_MIN = - (2 ^ 63)"

definition LLONG_MAX :: int where
  "LLONG_MAX = 2 ^ 63 - 1"

definition is_long_long :: "int \<Rightarrow> bool" where
  "is_long_long x \<longleftrightarrow> LLONG_MIN \<le> x \<and> x \<le> LLONG_MAX"

definition ll_add :: "int \<Rightarrow> int \<Rightarrow> error + int" where
  "ll_add a b = (if is_long_long (a + b) then Inr (a + b) else Inl SignedOverflow)"

subsection \<open>Double-precision arithmetic\<close>

text \<open>
  \<^verbatim>\<open>double\<close> is the IEEE 754 binary64 format: 53 significant bits, every operation rounded
  to the nearest representable value, ties to the even significand. A finite \<^verbatim>\<open>double\<close> is
  modelled by the rational number it stands for. The exponent range is left out: every
  value in \<^verbatim>\<open>print_latency_stats\<close> is 0 or has a magnitude between \<^verbatim>\<open>2^-64\<close> and \<^verbatim>\<open>2^64\<close>,
  far inside the range of normal numbers.

  \<open>ilog2 x\<close> is the binary exponent \<open>e\<close> of a positive \<open>x\<close> (\<open>2 powi e \<le> x < 2 powi (e + 1)\<close>),
  \<open>round_half_even\<close> rounds to the nearest integer, ties to even, and \<open>rd x\<close> is the
  \<^verbatim>\<open>double\<close> nearest to \<open>x\<close>: \<open>x\<close> rounded to a multiple of \<open>2 powi (e - 52)\<close>.
\<close>

definition ilog2 :: "rat \<Rightarrow> int" where
  "ilog2 x = (case quotient_of x of (a, b) \<Rightarrow>
     let e = bitlen a - bitlen b in if 2 powi e \<le> x then e else e - 1)"

definition round_half_even :: "rat \<Rightarrow> int" where
  "round_half_even x =
     (let f = \<lfloor>x\<rfloor>; r = x - of_int f in
      if r < 1 / 2 then f else if 1 / 2 < r then f + 1 else if even f then f else f + 1)"

definition rd :: "rat \<Rightarrow> rat" where
  "rd x = (if x = 0 then 0
     else let u = 2 powi (ilog2 \<bar>x\<bar> - 52) in of_int (round_half_even (x / u)) * u)"

text \<open>
  The operations the function uses: the conversion of a \<^verbatim>\<open>long long\<close> to \<^verbatim>\<open>double\<close>, a
  decimal literal such as \<^verbatim>\<open>0.99\<close>, product and quotient, and the conversion of a \<^verbatim>\<open>double\<close>
  to \<^verbatim>\<open>size_t\<close> (the index of \<^verbatim>\<open>operator[]\<close>), which truncates towards zero and is
  undefined when the truncated value is not a \<^verbatim>\<open>size_t\<close>.
\<close>

definition double_of_int :: "int \<Rightarrow> rat" where
  "double_of_int n = rd (of_int n)"

definition double_literal :: "rat \<Rightarrow> rat" where
  "double_literal q = rd q"

definition double_mul :: "rat \<Rightarrow> rat \<Rightarrow> rat" where
  "double_mul x y = rd (x * y)"

definition double_div :: "rat \<Rightarrow> rat \<Rightarrow> rat" where
  "double_div x y = rd (x / y)"

definition size_t_of_double :: "rat \<Rightarrow> error + nat" where
  "size_t_of_double x =
     (if x \<le> - 1 \<or> 2 ^ 64 \<le> x then Inl ConversionOutOfRange else Inr (nat \<lfloor>x\<rfloor>))"

subsection \<open>The reporter\<close>

text \<open>\<^verbatim>\<open>v[x]\<close> for a vector of samples and a \<^verbatim>\<open>double\<close> index.\<close>

definition vector_at :: "int list \<Rightarrow> rat \<Rightarrow> error + int" where
  "vector_at v x =
     (case size_t_of_double x of
        Inl e \<Rightarrow> Inl e
      | Inr i \<Rightarrow> if i < length v then Inr (v ! i) else Inl IndexOutOfRange)"

text \<open>\<^verbatim>\<open>std::accumulate(first, last, 0LL)\<close>: the running sum, from the left.\<close>

fun accumulate :: "int list \<Rightarrow> int \<Rightarrow> error + int" where
  "accumulate [] init = Inr init"
| "accumulate (x # xs) init =
     (case ll_add init x of Inl e \<Rightarrow> Inl e | Inr s \<Rightarrow> accumulate xs s)"

text \<open>
  What \<^verbatim>\<open>print_latency_stats\<close> reports: either the line \<^verbatim>\<open>No latencies recorded.\<close> or the
  statistics, here the values before they are scaled to microseconds and printed.
\<close>

record latency_stats =
  stat_count :: int
  stat_mean :: rat
  stat_min :: int
  stat_p50 :: int
  stat_p90 :: int
  stat_p99 :: int
  stat_max :: int

datatype report = No_latencies_recorded | Latency_statistics latency_stats

text \<open>
  \<^verbatim>\<open>print_latency_stats\<close> works on the global vector \<^verbatim>\<open>end_to_end_latencies_ns\<close>, which it
  sorts in place: the model takes the vector and returns it with the report.
\<close>

definition print_latency_stats :: "int list \<Rightarrow> error + (int list \<times> report)" where
  "print_latency_stats end_to_end_latencies_ns =
     (if end_to_end_latencies_ns = [] then Inr (end_to_end_latencies_ns, No_latencies_recorded)
      else
        let v = sort end_to_end_latencies_ns;
            total_count = int (length v)
        in case accumulate v 0 of
          Inl e \<Rightarrow> Inl e
        | Inr sum_ns \<Rightarrow>
            let mean_ns = double_div (double_of_int sum_ns) (double_of_int total_count);
                min_ns = hd v;
                max_ns = last v
            in case vector_at v (double_mul (double_of_int total_count) (double_literal (50 / 100))) of
              Inl e \<Rightarrow> Inl e
            | Inr p50_ns \<Rightarrow>
                (case vector_at v (double_mul (double_of_int total_count) (double_literal (90 / 100))) of
                   Inl e \<Rightarrow> Inl e
                 | Inr p90_ns \<Rightarrow>
                     (case vector_at v (double_mul (double_of_int total_count) (double_literal (99 / 100))) of
                        Inl e \<Rightarrow> Inl e
                      | Inr p99_ns \<Rightarrow>
                          Inr (v, Latency_statistics
                            \<lparr>stat_count = total_count, stat_mean = mean_ns, stat_min = min_ns,
                             stat_p50 = p50_ns, stat_p90 = p90_ns, stat_p99 = p99_ns,
                             stat_max = max_ns\<rparr>))))"

section \<open>Adding to a level map\<close>

lemma int_add_Inr: "int_add a b = Inr c \<Longrightarrow> c = a + b"
  by (simp add: int_add_def split: if_splits)

lemma int_sub_Inr: "int_sub a b = Inr c \<Longrightarrow> c = a - b"
  by (simp add: int_sub_def split: if_splits)

lemma map_add_assign_keys:
  "map_add_assign k q m = Inr m' \<Longrightarrow> set (map fst m') = insert k (set (map fst m))"
proof (induction m arbitrary: m')
  case Nil
  then show ?case by (auto split: sum.splits)
next
  case (Cons a m)
  obtain k' v' where a: "a = (k', v')" by (cases a)
  consider "k < k'" | "k = k'" | "k' < k" by linarith
  then show ?case
  proof cases
    case 1
    with Cons.prems a show ?thesis by (auto split: sum.splits)
  next
    case 2
    with Cons.prems a show ?thesis by (auto split: sum.splits)
  next
    case 3
    with Cons.prems a obtain m1 where m1: "map_add_assign k q m = Inr m1" "m' = (k', v') # m1"
      by (auto split: sum.splits)
    from Cons.IH [OF m1(1)] m1(2) a show ?thesis by auto
  qed
qed

lemma map_add_assign_hd:
  "map_add_assign k q m = Inr m' \<Longrightarrow> m' \<noteq> [] \<and> fst (hd m') = (if m = [] then k else min k (fst (hd m)))"
  by (cases m) (auto split: if_splits sum.splits)

lemma map_add_assign_wf:
  "wf_levels m \<Longrightarrow> map_add_assign k q m = Inr m' \<Longrightarrow> wf_levels m'"
proof (induction m arbitrary: m')
  case Nil
  then show ?case by (auto simp: wf_levels_def split: sum.splits)
next
  case (Cons a m)
  obtain k' v' where a: "a = (k', v')" by (cases a)
  from Cons.prems a have wfm: "wf_levels m" and lt: "\<forall>x\<in>set (map fst m). k' < x"
    by (auto simp: wf_levels_def)
  consider "k < k'" | "k = k'" | "k' < k" by linarith
  then show ?case
  proof cases
    case 1
    with Cons.prems(2) a obtain v where "m' = (k, v) # (k', v') # m"
      by (auto split: sum.splits)
    with 1 wfm lt show ?thesis by (auto simp: wf_levels_def)
  next
    case 2
    with Cons.prems(2) a obtain v where "m' = (k', v) # m"
      by (auto split: sum.splits)
    with wfm lt show ?thesis by (auto simp: wf_levels_def)
  next
    case 3
    with Cons.prems(2) a obtain m1 where m1: "map_add_assign k q m = Inr m1" "m' = (k', v') # m1"
      by (auto split: sum.splits)
    from Cons.IH [OF wfm m1(1)] have "wf_levels m1" .
    moreover from map_add_assign_keys [OF m1(1)] lt 3
    have "\<forall>x\<in>set (map fst m1). k' < x" by auto
    ultimately show ?thesis using m1(2) by (auto simp: wf_levels_def)
  qed
qed

lemma map_add_assign_last:
  "wf_levels m \<Longrightarrow> map_add_assign k q m = Inr m' \<Longrightarrow>
   fst (last m') = (if m = [] then k else max k (fst (last m)))"
proof (induction m arbitrary: m')
  case Nil
  then show ?case by (auto split: sum.splits)
next
  case (Cons a m)
  obtain k' v' where a: "a = (k', v')" by (cases a)
  from Cons.prems a have wfm: "wf_levels m" and lt: "\<forall>x\<in>set (map fst m). k' < x"
    by (auto simp: wf_levels_def)
  have lastm: "m \<noteq> [] \<Longrightarrow> k' < fst (last m)"
    using lt by (metis last_in_set image_eqI list.set_map)
  show ?case
  proof (cases "k < k'")
    case True
    with Cons.prems a lastm show ?thesis
      by (auto split: sum.splits)
  next
    case False
    show ?thesis
    proof (cases "k = k'")
      case True
      with Cons.prems a lastm show ?thesis
        by (auto split: sum.splits)
    next
      case ne: False
      with False Cons.prems a obtain m1 where m1: "map_add_assign k q m = Inr m1" "m' = (k', v') # m1"
        by (auto split: sum.splits)
      from Cons.IH [OF wfm m1(1)] have "fst (last m1) = (if m = [] then k else max k (fst (last m)))" .
      moreover from map_add_assign_hd [OF m1(1)] have "m1 \<noteq> []" by simp
      ultimately show ?thesis using m1(2) False ne a by auto
    qed
  qed
qed

section \<open>The loop of \<open>match_buy\<close>\<close>

lemma match_buy_loop_stop:
  "\<not> quantity buy_order > 0 \<Longrightarrow> match_buy_loop buy_order ls = Inr (buy_order, ls)"
  by (cases ls) auto

lemma match_buy_loop_Cons_cases:
  assumes "match_buy_loop buy_order ((ap, aq) # rest) = Inr (order', ls')"
  obtains
    (stop) "\<not> quantity buy_order > 0" "order' = buy_order" "ls' = (ap, aq) # rest"
  | (barrier) "quantity buy_order > 0" "price buy_order < ap"
      "order' = buy_order" "ls' = (ap, aq) # rest"
  | (erase) "quantity buy_order > 0" "ap \<le> price buy_order" "aq \<le> quantity buy_order"
      "match_buy_loop (buy_order\<lparr>quantity := quantity buy_order - aq\<rparr>) rest = Inr (order', ls')"
  | (partial) "quantity buy_order > 0" "ap \<le> price buy_order" "quantity buy_order < aq"
      "order' = buy_order\<lparr>quantity := 0\<rparr>" "ls' = (ap, aq - quantity buy_order) # rest"
proof (cases "quantity buy_order > 0")
  case False
  show ?thesis by (rule stop) (use assms False in simp_all)
next
  case pos: True
  show ?thesis
  proof (cases "price buy_order < ap")
    case True
    show ?thesis by (rule barrier) (use assms pos True in simp_all)
  next
    case nb: False
    show ?thesis
    proof (cases "aq \<le> quantity buy_order")
      case True
      then have m: "min (quantity buy_order) aq = aq" by simp
      from assms pos nb m
      have "match_buy_loop (buy_order\<lparr>quantity := quantity buy_order - aq\<rparr>) rest = Inr (order', ls')"
        by (simp add: Let_def int_sub_def split: if_splits)
      with pos nb True show ?thesis by (intro erase) simp_all
    next
      case False
      then have m: "min (quantity buy_order) aq = quantity buy_order" by simp
      from False have ne: "aq - quantity buy_order \<noteq> 0" by simp
      from assms pos nb m ne
      have "order' = buy_order\<lparr>quantity := 0\<rparr> \<and> ls' = (ap, aq - quantity buy_order) # rest"
        by (simp add: Let_def int_sub_def match_buy_loop_stop split: if_splits)
      with pos nb False show ?thesis by (intro partial) simp_all
    qed
  qed
qed


lemma match_buy_loop_order:
  "match_buy_loop buy_order ls = Inr (order', ls') \<Longrightarrow>
   order' = buy_order\<lparr>quantity := quantity order'\<rparr>"
proof (induction ls arbitrary: buy_order)
  case Nil
  then show ?case by simp
next
  case (Cons a ls)
  obtain ap aq where a: "a = (ap, aq)" by (cases a)
  from Cons.prems [unfolded a] show ?case
  proof (cases rule: match_buy_loop_Cons_cases)
    case erase
    from Cons.IH [OF erase(4)] show ?thesis by simp
  qed simp_all
qed

lemma match_buy_loop_nonneg:
  "match_buy_loop buy_order ls = Inr (order', ls') \<Longrightarrow> 0 < quantity buy_order \<Longrightarrow>
   0 \<le> quantity order'"
proof (induction ls arbitrary: buy_order)
  case Nil
  then show ?case by simp
next
  case (Cons a ls)
  obtain ap aq where a: "a = (ap, aq)" by (cases a)
  from Cons.prems(1) [unfolded a] show ?case
  proof (cases rule: match_buy_loop_Cons_cases)
    case erase
    show ?thesis
    proof (cases "aq = quantity buy_order")
      case True
      with erase(4) show ?thesis by (auto simp: match_buy_loop_stop)
    next
      case False
      with erase(3) Cons.IH [OF erase(4)] show ?thesis by simp
    qed
  qed (use Cons.prems(2) in simp_all)
qed

lemma match_buy_loop_keys:
  "match_buy_loop buy_order ls = Inr (order', ls') \<Longrightarrow>
   \<exists>pre. map fst ls = pre @ map fst ls'"
proof (induction ls arbitrary: buy_order)
  case Nil
  then show ?case by simp
next
  case (Cons a ls)
  obtain ap aq where a: "a = (ap, aq)" by (cases a)
  from Cons.prems [unfolded a] show ?case
  proof (cases rule: match_buy_loop_Cons_cases)
    case erase
    from Cons.IH [OF erase(4)] obtain pre where "map fst ls = pre @ map fst ls'" ..
    then have "map fst (a # ls) = (fst a # pre) @ map fst ls'" by simp
    then show ?thesis ..
  qed (simp_all add: a)
qed

lemma match_buy_loop_barrier:
  "match_buy_loop buy_order ls = Inr (order', ls') \<Longrightarrow> 0 < quantity order' \<Longrightarrow>
   ls' = [] \<or> price buy_order < fst (hd ls')"
proof (induction ls arbitrary: buy_order)
  case Nil
  then show ?case by simp
next
  case (Cons a ls)
  obtain ap aq where a: "a = (ap, aq)" by (cases a)
  from Cons.prems(1) [unfolded a] show ?case
  proof (cases rule: match_buy_loop_Cons_cases)
    case erase
    from Cons.IH [OF erase(4) Cons.prems(2)] show ?thesis by simp
  qed (use Cons.prems(2) in simp_all)
qed

lemma match_buy_loop_conserve:
  "match_buy_loop buy_order ls = Inr (order', ls') \<Longrightarrow>
   quantity buy_order - quantity order' = sum_list (map snd ls) - sum_list (map snd ls')"
proof (induction ls arbitrary: buy_order)
  case Nil
  then show ?case by simp
next
  case (Cons a ls)
  obtain ap aq where a: "a = (ap, aq)" by (cases a)
  from Cons.prems [unfolded a] show ?case
  proof (cases rule: match_buy_loop_Cons_cases)
    case erase
    from Cons.IH [OF erase(4)] show ?thesis by (simp add: a)
  qed (simp_all add: a)
qed

lemma match_buy_loop_positive:
  "match_buy_loop buy_order ls = Inr (order', ls') \<Longrightarrow> \<forall>x\<in>set ls. 0 < snd x \<Longrightarrow>
   \<forall>x\<in>set ls'. 0 < snd x"
proof (induction ls arbitrary: buy_order)
  case Nil
  then show ?case by simp
next
  case (Cons a ls)
  obtain ap aq where a: "a = (ap, aq)" by (cases a)
  from Cons.prems(1) [unfolded a] show ?case
  proof (cases rule: match_buy_loop_Cons_cases)
    case erase
    from Cons.IH [OF erase(4)] Cons.prems(2) show ?thesis by simp
  qed (use Cons.prems(2) a in simp_all)
qed

lemma match_buy_loop_defined:
  "\<forall>x\<in>set ls. 0 < snd x \<and> snd x \<le> INT_MAX \<Longrightarrow> quantity buy_order \<le> INT_MAX \<Longrightarrow>
   \<exists>r. match_buy_loop buy_order ls = Inr r"
proof (induction ls arbitrary: buy_order)
  case Nil
  then show ?case by simp
next
  case (Cons a ls)
  obtain ap aq where a: "a = (ap, aq)" by (cases a)
  from Cons.prems a have aq: "0 < aq" "aq \<le> INT_MAX" by auto
  show ?case
  proof (cases "0 < quantity buy_order \<and> \<not> price buy_order < ap")
    case False
    then show ?thesis by (auto simp: a)
  next
    case go: True
    show ?thesis
    proof (cases "aq \<le> quantity buy_order")
      case True
      then have m: "min (quantity buy_order) aq = aq" by simp
      have "quantity (buy_order\<lparr>quantity := quantity buy_order - aq\<rparr>) \<le> INT_MAX"
        using aq Cons.prems(2) by simp
      with Cons.IH [of "buy_order\<lparr>quantity := quantity buy_order - aq\<rparr>"] Cons.prems(1)
      obtain r where "match_buy_loop (buy_order\<lparr>quantity := quantity buy_order - aq\<rparr>) ls = Inr r"
        by auto
      with go m aq Cons.prems(2) True show ?thesis
        by (simp add: a Let_def int_sub_def is_int_def INT_MIN_def INT_MAX_def)
    next
      case False
      then have m: "min (quantity buy_order) aq = quantity buy_order" by simp
      with go aq Cons.prems(2) False show ?thesis
        by (simp add: a Let_def int_sub_def is_int_def INT_MIN_def INT_MAX_def match_buy_loop_stop)
    qed
  qed
qed

section \<open>The loop of \<open>match_sell\<close>\<close>

lemma match_sell_loop_stop:
  "\<not> quantity sell_order > 0 \<Longrightarrow> match_sell_loop sell_order ls = Inr (sell_order, ls)"
  by (cases ls) auto

lemma match_sell_loop_Cons_cases:
  assumes "match_sell_loop sell_order ((bp, bq) # rest) = Inr (order', ls')"
  obtains
    (stop) "\<not> quantity sell_order > 0" "order' = sell_order" "ls' = (bp, bq) # rest"
  | (barrier) "quantity sell_order > 0" "price sell_order > bp"
      "order' = sell_order" "ls' = (bp, bq) # rest"
  | (erase) "quantity sell_order > 0" "price sell_order \<le> bp" "bq \<le> quantity sell_order"
      "match_sell_loop (sell_order\<lparr>quantity := quantity sell_order - bq\<rparr>) rest = Inr (order', ls')"
  | (partial) "quantity sell_order > 0" "price sell_order \<le> bp" "quantity sell_order < bq"
      "order' = sell_order\<lparr>quantity := 0\<rparr>" "ls' = (bp, bq - quantity sell_order) # rest"
proof (cases "quantity sell_order > 0")
  case False
  show ?thesis by (rule stop) (use assms False in simp_all)
next
  case pos: True
  show ?thesis
  proof (cases "price sell_order > bp")
    case True
    show ?thesis by (rule barrier) (use assms pos True in simp_all)
  next
    case nb: False
    show ?thesis
    proof (cases "bq \<le> quantity sell_order")
      case True
      then have m: "min (quantity sell_order) bq = bq" by simp
      from assms pos nb m
      have "match_sell_loop (sell_order\<lparr>quantity := quantity sell_order - bq\<rparr>) rest = Inr (order', ls')"
        by (simp add: Let_def int_sub_def split: if_splits)
      with pos nb True show ?thesis by (intro erase) simp_all
    next
      case False
      then have m: "min (quantity sell_order) bq = quantity sell_order" by simp
      from False have ne: "bq - quantity sell_order \<noteq> 0" by simp
      from assms pos nb m ne
      have "order' = sell_order\<lparr>quantity := 0\<rparr> \<and> ls' = (bp, bq - quantity sell_order) # rest"
        by (simp add: Let_def int_sub_def match_sell_loop_stop split: if_splits)
      with pos nb False show ?thesis by (intro partial) simp_all
    qed
  qed
qed


lemma match_sell_loop_order:
  "match_sell_loop sell_order ls = Inr (order', ls') \<Longrightarrow>
   order' = sell_order\<lparr>quantity := quantity order'\<rparr>"
proof (induction ls arbitrary: sell_order)
  case Nil
  then show ?case by simp
next
  case (Cons a ls)
  obtain bp bq where a: "a = (bp, bq)" by (cases a)
  from Cons.prems [unfolded a] show ?case
  proof (cases rule: match_sell_loop_Cons_cases)
    case erase
    from Cons.IH [OF erase(4)] show ?thesis by simp
  qed simp_all
qed

lemma match_sell_loop_nonneg:
  "match_sell_loop sell_order ls = Inr (order', ls') \<Longrightarrow> 0 < quantity sell_order \<Longrightarrow>
   0 \<le> quantity order'"
proof (induction ls arbitrary: sell_order)
  case Nil
  then show ?case by simp
next
  case (Cons a ls)
  obtain bp bq where a: "a = (bp, bq)" by (cases a)
  from Cons.prems(1) [unfolded a] show ?case
  proof (cases rule: match_sell_loop_Cons_cases)
    case erase
    show ?thesis
    proof (cases "bq = quantity sell_order")
      case True
      with erase(4) show ?thesis by (auto simp: match_sell_loop_stop)
    next
      case False
      with erase(3) Cons.IH [OF erase(4)] show ?thesis by simp
    qed
  qed (use Cons.prems(2) in simp_all)
qed

lemma match_sell_loop_keys:
  "match_sell_loop sell_order ls = Inr (order', ls') \<Longrightarrow>
   \<exists>pre. map fst ls = pre @ map fst ls'"
proof (induction ls arbitrary: sell_order)
  case Nil
  then show ?case by simp
next
  case (Cons a ls)
  obtain bp bq where a: "a = (bp, bq)" by (cases a)
  from Cons.prems [unfolded a] show ?case
  proof (cases rule: match_sell_loop_Cons_cases)
    case erase
    from Cons.IH [OF erase(4)] obtain pre where "map fst ls = pre @ map fst ls'" ..
    then have "map fst (a # ls) = (fst a # pre) @ map fst ls'" by simp
    then show ?thesis ..
  qed (simp_all add: a)
qed

lemma match_sell_loop_barrier:
  "match_sell_loop sell_order ls = Inr (order', ls') \<Longrightarrow> 0 < quantity order' \<Longrightarrow>
   ls' = [] \<or> fst (hd ls') < price sell_order"
proof (induction ls arbitrary: sell_order)
  case Nil
  then show ?case by simp
next
  case (Cons a ls)
  obtain bp bq where a: "a = (bp, bq)" by (cases a)
  from Cons.prems(1) [unfolded a] show ?case
  proof (cases rule: match_sell_loop_Cons_cases)
    case erase
    from Cons.IH [OF erase(4) Cons.prems(2)] show ?thesis by simp
  qed (use Cons.prems(2) in simp_all)
qed

lemma match_sell_loop_conserve:
  "match_sell_loop sell_order ls = Inr (order', ls') \<Longrightarrow>
   quantity sell_order - quantity order' = sum_list (map snd ls) - sum_list (map snd ls')"
proof (induction ls arbitrary: sell_order)
  case Nil
  then show ?case by simp
next
  case (Cons a ls)
  obtain bp bq where a: "a = (bp, bq)" by (cases a)
  from Cons.prems [unfolded a] show ?case
  proof (cases rule: match_sell_loop_Cons_cases)
    case erase
    from Cons.IH [OF erase(4)] show ?thesis by (simp add: a)
  qed (simp_all add: a)
qed

lemma match_sell_loop_positive:
  "match_sell_loop sell_order ls = Inr (order', ls') \<Longrightarrow> \<forall>x\<in>set ls. 0 < snd x \<Longrightarrow>
   \<forall>x\<in>set ls'. 0 < snd x"
proof (induction ls arbitrary: sell_order)
  case Nil
  then show ?case by simp
next
  case (Cons a ls)
  obtain bp bq where a: "a = (bp, bq)" by (cases a)
  from Cons.prems(1) [unfolded a] show ?case
  proof (cases rule: match_sell_loop_Cons_cases)
    case erase
    from Cons.IH [OF erase(4)] Cons.prems(2) show ?thesis by simp
  qed (use Cons.prems(2) a in simp_all)
qed

lemma match_sell_loop_defined:
  "\<forall>x\<in>set ls. 0 < snd x \<and> snd x \<le> INT_MAX \<Longrightarrow> quantity sell_order \<le> INT_MAX \<Longrightarrow>
   \<exists>r. match_sell_loop sell_order ls = Inr r"
proof (induction ls arbitrary: sell_order)
  case Nil
  then show ?case by simp
next
  case (Cons a ls)
  obtain bp bq where a: "a = (bp, bq)" by (cases a)
  from Cons.prems a have bq: "0 < bq" "bq \<le> INT_MAX" by auto
  show ?case
  proof (cases "0 < quantity sell_order \<and> \<not> price sell_order > bp")
    case False
    then show ?thesis by (auto simp: a)
  next
    case go: True
    show ?thesis
    proof (cases "bq \<le> quantity sell_order")
      case True
      then have m: "min (quantity sell_order) bq = bq" by simp
      have "quantity (sell_order\<lparr>quantity := quantity sell_order - bq\<rparr>) \<le> INT_MAX"
        using bq Cons.prems(2) by simp
      with Cons.IH [of "sell_order\<lparr>quantity := quantity sell_order - bq\<rparr>"] Cons.prems(1)
      obtain r where "match_sell_loop (sell_order\<lparr>quantity := quantity sell_order - bq\<rparr>) ls = Inr r"
        by auto
      with go m bq Cons.prems(2) True show ?thesis
        by (simp add: a Let_def int_sub_def is_int_def INT_MIN_def INT_MAX_def)
    next
      case False
      then have m: "min (quantity sell_order) bq = quantity sell_order" by simp
      with go bq Cons.prems(2) False show ?thesis
        by (simp add: a Let_def int_sub_def is_int_def INT_MIN_def INT_MAX_def match_sell_loop_stop)
    qed
  qed
qed

section \<open>One call of \<open>match_buy\<close> or \<open>match_sell\<close>\<close>

lemma wf_levels_suffix:
  assumes "wf_levels ls" and "map fst ls = pre @ map fst ls'"
  shows "wf_levels ls'" and "ls' \<noteq> [] \<Longrightarrow> ls \<noteq> [] \<and> fst (hd ls) \<le> fst (hd ls')"
proof -
  from assms have s: "sorted_wrt (<) (pre @ map fst ls')"
    by (simp add: wf_levels_def)
  then show "wf_levels ls'"
    by (simp add: wf_levels_def sorted_wrt_append)
  assume ne: "ls' \<noteq> []"
  with assms(2) have ne': "ls \<noteq> []" by auto
  have "hd (map fst ls) \<le> hd (map fst ls')"
  proof (cases pre)
    case Nil
    with assms(2) show ?thesis by simp
  next
    case (Cons x xs)
    from ne have "hd (map fst ls') \<in> set (map fst ls')" by (intro hd_in_set) simp
    with s Cons have "x < hd (map fst ls')" by (auto simp: sorted_wrt_append)
    with assms(2) Cons show ?thesis by simp
  qed
  with ne ne' show "ls \<noteq> [] \<and> fst (hd ls) \<le> fst (hd ls')"
    by (simp add: hd_map)
qed

lemma wf_levels_prefix:
  assumes "wf_levels ls" and "map fst ls = map fst ls' @ post"
  shows "wf_levels ls'" and "ls' \<noteq> [] \<Longrightarrow> ls \<noteq> [] \<and> fst (last ls') \<le> fst (last ls)"
proof -
  from assms have s: "sorted_wrt (<) (map fst ls' @ post)"
    by (simp add: wf_levels_def)
  then show "wf_levels ls'"
    by (simp add: wf_levels_def sorted_wrt_append)
  assume ne: "ls' \<noteq> []"
  with assms(2) have ne': "ls \<noteq> []" by auto
  have "last (map fst ls') \<le> last (map fst ls)"
  proof (cases "post = []")
    case True
    with assms(2) show ?thesis by simp
  next
    case False
    from ne have "last (map fst ls') \<in> set (map fst ls')" by (intro last_in_set) simp
    moreover from False have "last post \<in> set post" by simp
    ultimately have "last (map fst ls') < last post"
      using s by (auto simp: sorted_wrt_append)
    with assms(2) False show ?thesis by simp
  qed
  with ne ne' show "ls \<noteq> [] \<and> fst (last ls') \<le> fst (last ls)"
    by (simp add: last_map)
qed

lemma map_add_assign_total:
  "map_add_assign k q m = Inr m' \<Longrightarrow> total_quantity m' = total_quantity m + q"
  unfolding total_quantity_def
proof (induction m arbitrary: m')
  case Nil
  then show ?case by (auto simp: int_add_def split: sum.splits if_splits)
next
  case (Cons a m)
  obtain k' v' where a: "a = (k', v')" by (cases a)
  consider "k < k'" | "k = k'" | "k' < k" by linarith
  then show ?case
  proof cases
    case 1
    with Cons.prems a show ?thesis by (auto simp: int_add_def split: sum.splits if_splits)
  next
    case 2
    with Cons.prems a show ?thesis by (auto simp: int_add_def split: sum.splits if_splits)
  next
    case 3
    with Cons.prems a obtain m1 where m1: "map_add_assign k q m = Inr m1" "m' = (k', v') # m1"
      by (auto split: sum.splits)
    from Cons.IH [OF m1(1)] m1(2) a show ?thesis by simp
  qed
qed

lemma map_add_assign_positive:
  "map_add_assign k q m = Inr m' \<Longrightarrow> 0 < q \<Longrightarrow> positive_levels m \<Longrightarrow> positive_levels m'"
  unfolding positive_levels_def
proof (induction m arbitrary: m')
  case Nil
  then show ?case by (auto simp: int_add_def split: sum.splits if_splits)
next
  case (Cons a m)
  obtain k' v' where a: "a = (k', v')" by (cases a)
  consider "k < k'" | "k = k'" | "k' < k" by linarith
  then show ?case
  proof cases
    case 1
    with Cons.prems a show ?thesis by (auto simp: int_add_def split: sum.splits if_splits)
  next
    case 2
    with Cons.prems a show ?thesis by (auto simp: int_add_def split: sum.splits if_splits)
  next
    case 3
    with Cons.prems a obtain m1 where m1: "map_add_assign k q m = Inr m1" "m' = (k', v') # m1"
      by (auto split: sum.splits)
    from Cons.IH [OF m1(1)] Cons.prems(2,3) m1(2) a show ?thesis by simp
  qed
qed

text \<open>What a successful \<open>match_buy\<close> is made of.\<close>

lemma match_buy_Inr:
  assumes "match_buy buy_order b = Inr (order', b')"
  obtains asks' where "match_buy_loop buy_order (asks b) = Inr (order', asks')"
    and "asks b' = asks'"
    and "0 < quantity order' \<Longrightarrow>
           map_add_assign (price buy_order) (quantity order') (bids b) = Inr (bids b')"
    and "\<not> 0 < quantity order' \<Longrightarrow> bids b' = bids b"
proof -
  from assms obtain asks' where l: "match_buy_loop buy_order (asks b) = Inr (order', asks')"
    by (auto simp: match_buy_def split: sum.splits prod.splits if_splits)
  from match_buy_loop_order [OF l] have p: "price order' = price buy_order"
    by (cases order', cases buy_order) auto
  show thesis
  proof (rule that [OF l])
    show "asks b' = asks'"
      using assms l by (auto simp: match_buy_def add_to_book_def split: sum.splits if_splits)
    show "map_add_assign (price buy_order) (quantity order') (bids b) = Inr (bids b')"
      if "0 < quantity order'"
      using assms l that p by (auto simp: match_buy_def add_to_book_def split: sum.splits)
    show "bids b' = bids b" if "\<not> 0 < quantity order'"
      using assms l that by (auto simp: match_buy_def)
  qed
qed

lemma match_sell_Inr:
  assumes "match_sell sell_order b = Inr (order', b')"
  obtains rbids' where "match_sell_loop sell_order (rev (bids b)) = Inr (order', rbids')"
    and "bids b' = rev rbids'"
    and "0 < quantity order' \<Longrightarrow>
           map_add_assign (price sell_order) (quantity order') (asks b) = Inr (asks b')"
    and "\<not> 0 < quantity order' \<Longrightarrow> asks b' = asks b"
proof -
  from assms obtain rbids' where l: "match_sell_loop sell_order (rev (bids b)) = Inr (order', rbids')"
    by (auto simp: match_sell_def split: sum.splits prod.splits if_splits)
  from match_sell_loop_order [OF l] have p: "price order' = price sell_order"
    by (cases order', cases sell_order) auto
  show thesis
  proof (rule that [OF l])
    show "bids b' = rev rbids'"
      using assms l by (auto simp: match_sell_def add_to_book_def split: sum.splits if_splits)
    show "map_add_assign (price sell_order) (quantity order') (asks b) = Inr (asks b')"
      if "0 < quantity order'"
      using assms l that p by (auto simp: match_sell_def add_to_book_def split: sum.splits)
    show "asks b' = asks b" if "\<not> 0 < quantity order'"
      using assms l that by (auto simp: match_sell_def)
  qed
qed

section \<open>The book stays well-formed and uncrossed\<close>

lemma match_buy_inv:
  assumes wf: "wf_book b" and un: "uncrossed b"
    and m: "match_buy buy_order b = Inr (order', b')"
  shows "wf_book b' \<and> uncrossed b'"
proof -
  from m obtain asks' where l: "match_buy_loop buy_order (asks b) = Inr (order', asks')"
    and a: "asks b' = asks'"
    and add: "0 < quantity order' \<Longrightarrow>
           map_add_assign (price buy_order) (quantity order') (bids b) = Inr (bids b')"
    and same: "\<not> 0 < quantity order' \<Longrightarrow> bids b' = bids b"
    by (rule match_buy_Inr) blast
  from match_buy_loop_keys [OF l] obtain pre where pre: "map fst (asks b) = pre @ map fst asks'" ..
  from wf have wfa: "wf_levels (asks b)" and wfb: "wf_levels (bids b)"
    by (simp_all add: wf_book_def)
  note suf = wf_levels_suffix [OF wfa pre]
  show ?thesis
  proof (cases "0 < quantity order'")
    case False
    from same [OF False] a suf(1) wfb have "wf_book b'" by (simp add: wf_book_def)
    moreover have "uncrossed b'"
      unfolding uncrossed_def
    proof
      assume ne: "bids b' \<noteq> [] \<and> asks b' \<noteq> []"
      with a suf(2) have "asks b \<noteq> []" "fst (hd (asks b)) \<le> fst (hd (asks b'))" by auto
      with un ne same [OF False] show "fst (last (bids b')) < fst (hd (asks b'))"
        by (auto simp: uncrossed_def)
    qed
    ultimately show ?thesis ..
  next
    case True
    note ad = add [OF True]
    from map_add_assign_wf [OF wfb ad] a suf(1) have "wf_book b'" by (simp add: wf_book_def)
    moreover have "uncrossed b'"
      unfolding uncrossed_def
    proof
      assume ne: "bids b' \<noteq> [] \<and> asks b' \<noteq> []"
      with a suf(2) have old: "asks b \<noteq> []" "fst (hd (asks b)) \<le> fst (hd (asks b'))" by auto
      from match_buy_loop_barrier [OF l True] ne a
      have bar: "price buy_order < fst (hd (asks b'))" by auto
      show "fst (last (bids b')) < fst (hd (asks b'))"
      proof (cases "bids b = []")
        case True
        with map_add_assign_last [OF wfb ad] bar show ?thesis by simp
      next
        case False
        with un old have "fst (last (bids b)) < fst (hd (asks b'))"
          by (auto simp: uncrossed_def)
        with map_add_assign_last [OF wfb ad] False bar show ?thesis by simp
      qed
    qed
    ultimately show ?thesis ..
  qed
qed

lemma match_sell_inv:
  assumes wf: "wf_book b" and un: "uncrossed b"
    and m: "match_sell sell_order b = Inr (order', b')"
  shows "wf_book b' \<and> uncrossed b'"
proof -
  from m obtain rbids' where l: "match_sell_loop sell_order (rev (bids b)) = Inr (order', rbids')"
    and a: "bids b' = rev rbids'"
    and add: "0 < quantity order' \<Longrightarrow>
           map_add_assign (price sell_order) (quantity order') (asks b) = Inr (asks b')"
    and same: "\<not> 0 < quantity order' \<Longrightarrow> asks b' = asks b"
    by (rule match_sell_Inr) blast
  from match_sell_loop_keys [OF l] obtain pre
    where pre: "map fst (rev (bids b)) = pre @ map fst rbids'" ..
  then have "rev (map fst (rev (bids b))) = rev (pre @ map fst rbids')" by simp
  then have post: "map fst (bids b) = map fst (bids b') @ rev pre"
    by (simp add: rev_map a)
  from wf have wfa: "wf_levels (asks b)" and wfb: "wf_levels (bids b)"
    by (simp_all add: wf_book_def)
  note pfx = wf_levels_prefix [OF wfb post]
  have hd_last: "fst (hd rbids') = fst (last (bids b'))" if "rbids' \<noteq> []"
    using that a by (simp add: last_rev)
  show ?thesis
  proof (cases "0 < quantity order'")
    case False
    from same [OF False] pfx(1) wfa have "wf_book b'" by (simp add: wf_book_def)
    moreover have "uncrossed b'"
      unfolding uncrossed_def
    proof
      assume ne: "bids b' \<noteq> [] \<and> asks b' \<noteq> []"
      with pfx(2) have "bids b \<noteq> []" "fst (last (bids b')) \<le> fst (last (bids b))" by auto
      with un ne same [OF False] show "fst (last (bids b')) < fst (hd (asks b'))"
        by (auto simp: uncrossed_def)
    qed
    ultimately show ?thesis ..
  next
    case True
    note ad = add [OF True]
    from map_add_assign_wf [OF wfa ad] pfx(1) have "wf_book b'" by (simp add: wf_book_def)
    moreover have "uncrossed b'"
      unfolding uncrossed_def
    proof
      assume ne: "bids b' \<noteq> [] \<and> asks b' \<noteq> []"
      with pfx(2) have old: "bids b \<noteq> []" "fst (last (bids b')) \<le> fst (last (bids b))" by auto
      from ne a have "rbids' \<noteq> []" by auto
      with match_sell_loop_barrier [OF l True] hd_last
      have bar: "fst (last (bids b')) < price sell_order" by auto
      note h = map_add_assign_hd [OF ad]
      show "fst (last (bids b')) < fst (hd (asks b'))"
      proof (cases "asks b = []")
        case True
        with h bar show ?thesis by simp
      next
        case False
        with un old have "fst (last (bids b')) < fst (hd (asks b))"
          by (auto simp: uncrossed_def)
        with h False bar show ?thesis by simp
      qed
    qed
    ultimately show ?thesis ..
  qed
qed

lemma process_order_inv:
  "wf_book b \<Longrightarrow> uncrossed b \<Longrightarrow> process_order order b = Inr (order', b') \<Longrightarrow>
   wf_book b' \<and> uncrossed b'"
  by (cases "side order = BUY") (auto simp: process_order_def dest: match_buy_inv match_sell_inv)

lemma process_all_inv:
  "wf_book b \<Longrightarrow> uncrossed b \<Longrightarrow> process_all orders b = Inr b' \<Longrightarrow>
   wf_book b' \<and> uncrossed b'"
proof (induction orders arbitrary: b)
  case Nil
  then show ?case by simp
next
  case (Cons order orders)
  from Cons.prems(3) obtain order' b1 where s: "process_order order b = Inr (order', b1)"
    and r: "process_all orders b1 = Inr b'"
    by (auto split: sum.splits)
  from process_order_inv [OF Cons.prems(1,2) s] Cons.IH [OF _ _ r] show ?case by simp
qed

lemma empty_book_inv: "wf_book empty_book \<and> uncrossed empty_book"
  by (simp add: wf_book_def wf_levels_def uncrossed_def empty_book_def)

section \<open>Levels stay positive\<close>

lemma process_order_positive:
  assumes "positive_book b" and "process_order order b = Inr (order', b')"
  shows "positive_book b'"
proof (cases "side order = BUY")
  case True
  with assms(2) have m: "match_buy order b = Inr (order', b')" by (simp add: process_order_def)
  then obtain asks' where l: "match_buy_loop order (asks b) = Inr (order', asks')"
    and a: "asks b' = asks'"
    and add: "0 < quantity order' \<Longrightarrow>
           map_add_assign (price order) (quantity order') (bids b) = Inr (bids b')"
    and same: "\<not> 0 < quantity order' \<Longrightarrow> bids b' = bids b"
    by (rule match_buy_Inr) blast
  from match_buy_loop_positive [OF l] assms(1) a have "positive_levels (asks b')"
    by (simp add: positive_book_def positive_levels_def)
  moreover have "positive_levels (bids b')"
  proof (cases "0 < quantity order'")
    case True
    from map_add_assign_positive [OF add [OF True] True] assms(1) show ?thesis
      by (simp add: positive_book_def)
  next
    case False
    from same [OF False] assms(1) show ?thesis by (simp add: positive_book_def)
  qed
  ultimately show ?thesis by (simp add: positive_book_def)
next
  case False
  with assms(2) have m: "match_sell order b = Inr (order', b')" by (simp add: process_order_def)
  then obtain rbids' where l: "match_sell_loop order (rev (bids b)) = Inr (order', rbids')"
    and a: "bids b' = rev rbids'"
    and add: "0 < quantity order' \<Longrightarrow>
           map_add_assign (price order) (quantity order') (asks b) = Inr (asks b')"
    and same: "\<not> 0 < quantity order' \<Longrightarrow> asks b' = asks b"
    by (rule match_sell_Inr) blast
  from match_sell_loop_positive [OF l] assms(1) a have "positive_levels (bids b')"
    by (simp add: positive_book_def positive_levels_def)
  moreover have "positive_levels (asks b')"
  proof (cases "0 < quantity order'")
    case True
    from map_add_assign_positive [OF add [OF True] True] assms(1) show ?thesis
      by (simp add: positive_book_def)
  next
    case False
    from same [OF False] assms(1) show ?thesis by (simp add: positive_book_def)
  qed
  ultimately show ?thesis by (simp add: positive_book_def)
qed

lemma process_all_positive:
  assumes "process_all orders empty_book = Inr b"
  shows "positive_book b"
proof -
  have "positive_book b0 \<Longrightarrow> process_all orders b0 = Inr b \<Longrightarrow> positive_book b" for b0
  proof (induction orders arbitrary: b0)
    case Nil
    then show ?case by simp
  next
    case (Cons order orders)
    from Cons.prems(2) obtain order' b1 where s: "process_order order b0 = Inr (order', b1)"
      and r: "process_all orders b1 = Inr b"
      by (auto split: sum.splits)
    from process_order_positive [OF Cons.prems(1) s] Cons.IH [OF _ r] show ?case by simp
  qed
  moreover have "positive_book empty_book"
    by (simp add: positive_book_def positive_levels_def empty_book_def)
  ultimately show ?thesis using assms by blast
qed

lemma process_order_stop:
  "\<not> 0 < quantity order \<Longrightarrow> process_order order b = Inr (order, b)"
  by (simp add: process_order_def match_buy_def match_sell_def
      match_buy_loop_stop match_sell_loop_stop)

section \<open>The code against the matching of the specification\<close>

lemma map_add_assign_spec:
  "wf_levels m \<Longrightarrow> map_add_assign k q m = Inr m' \<Longrightarrow> m' = spec_add_level k q m"
proof (induction m arbitrary: m')
  case Nil
  then show ?case by (auto simp: spec_add_level_def int_add_def split: if_splits)
next
  case (Cons a m)
  obtain k' v' where a: "a = (k', v')" by (cases a)
  from Cons.prems a have wfm: "wf_levels m" and lt: "\<forall>x\<in>set m. k' < fst x"
    by (auto simp: wf_levels_def)
  consider "k < k'" | "k = k'" | "k' < k" by linarith
  then show ?case
  proof cases
    case 1
    with lt have "k \<notin> fst ` set (a # m)" using a by fastforce
    with 1 Cons.prems(2) a show ?thesis
      by (auto simp: spec_add_level_def int_add_def split: if_splits)
  next
    case 2
    from lt have "map (\<lambda>(k, v). if k = k' then (k, v + q) else (k, v)) m = m"
      by (intro map_idI) auto
    with 2 Cons.prems(2) a show ?thesis
      by (auto simp: spec_add_level_def int_add_def split: if_splits)
  next
    case 3
    with Cons.prems(2) a obtain m1 where m1: "map_add_assign k q m = Inr m1" "m' = (k', v') # m1"
      by (auto split: sum.splits)
    from Cons.IH [OF wfm m1(1)] have "m1 = spec_add_level k q m" .
    with 3 m1(2) a show ?thesis
      by (auto simp: spec_add_level_def)
  qed
qed

lemma match_buy_loop_spec:
  "match_buy_loop buy_order ls = Inr (order', ls') \<Longrightarrow>
   spec_scan (\<lambda>ask_price. ask_price \<le> price buy_order) (quantity buy_order) ls
     = (quantity order', ls')"
proof (induction ls arbitrary: buy_order)
  case Nil
  then show ?case by simp
next
  case (Cons a ls)
  obtain ap aq where a: "a = (ap, aq)" by (cases a)
  from Cons.prems [unfolded a] show ?case
  proof (cases rule: match_buy_loop_Cons_cases)
    case erase
    from erase(3) have "min (quantity buy_order) aq = aq" by simp
    with Cons.IH [OF erase(4)] erase(1,2) show ?thesis by (simp add: a)
  next
    case partial
    from partial(3) have "min (quantity buy_order) aq = quantity buy_order" by simp
    moreover have "spec_scan (\<lambda>ask_price. ask_price \<le> price buy_order) 0 ls = (0, ls)"
      by (cases ls) auto
    ultimately show ?thesis using partial by (simp add: a Let_def)
  qed (auto simp: a)
qed

lemma match_sell_loop_spec:
  "match_sell_loop sell_order ls = Inr (order', ls') \<Longrightarrow>
   spec_scan (\<lambda>bid_price. price sell_order \<le> bid_price) (quantity sell_order) ls
     = (quantity order', ls')"
proof (induction ls arbitrary: sell_order)
  case Nil
  then show ?case by simp
next
  case (Cons a ls)
  obtain bp bq where a: "a = (bp, bq)" by (cases a)
  from Cons.prems [unfolded a] show ?case
  proof (cases rule: match_sell_loop_Cons_cases)
    case erase
    from erase(3) have "min (quantity sell_order) bq = bq" by simp
    with Cons.IH [OF erase(4)] erase(1,2) show ?thesis by (simp add: a)
  next
    case partial
    from partial(3) have "min (quantity sell_order) bq = quantity sell_order" by simp
    moreover have "spec_scan (\<lambda>bid_price. price sell_order \<le> bid_price) 0 ls = (0, ls)"
      by (cases ls) auto
    ultimately show ?thesis using partial by (simp add: a Let_def)
  qed (auto simp: a)
qed

lemma match_buy_spec:
  assumes "wf_book b" and m: "match_buy buy_order b = Inr (order', b')"
  shows "b' = spec_match_buy (price buy_order) (quantity buy_order) b"
proof -
  from m obtain asks' where l: "match_buy_loop buy_order (asks b) = Inr (order', asks')"
    and a: "asks b' = asks'"
    and add: "0 < quantity order' \<Longrightarrow>
           map_add_assign (price buy_order) (quantity order') (bids b) = Inr (bids b')"
    and same: "\<not> 0 < quantity order' \<Longrightarrow> bids b' = bids b"
    by (rule match_buy_Inr) blast
  from assms(1) have wfb: "wf_levels (bids b)" by (simp add: wf_book_def)
  have "bids b' = (if 0 < quantity order'
      then spec_add_level (price buy_order) (quantity order') (bids b) else bids b)"
    using add same map_add_assign_spec [OF wfb] by auto
  with match_buy_loop_spec [OF l] a show ?thesis
    by (simp add: spec_match_buy_def)
qed

lemma match_sell_spec:
  assumes "wf_book b" and m: "match_sell sell_order b = Inr (order', b')"
  shows "b' = spec_match_sell (price sell_order) (quantity sell_order) b"
proof -
  from m obtain rbids' where l: "match_sell_loop sell_order (rev (bids b)) = Inr (order', rbids')"
    and a: "bids b' = rev rbids'"
    and add: "0 < quantity order' \<Longrightarrow>
           map_add_assign (price sell_order) (quantity order') (asks b) = Inr (asks b')"
    and same: "\<not> 0 < quantity order' \<Longrightarrow> asks b' = asks b"
    by (rule match_sell_Inr) blast
  from assms(1) have wfa: "wf_levels (asks b)" by (simp add: wf_book_def)
  have "asks b' = (if 0 < quantity order'
      then spec_add_level (price sell_order) (quantity order') (asks b) else asks b)"
    using add same map_add_assign_spec [OF wfa] by auto
  with match_sell_loop_spec [OF l] a show ?thesis
    by (simp add: spec_match_sell_def)
qed

section \<open>When the result is defined\<close>

lemma match_buy_loop_le:
  "match_buy_loop buy_order ls = Inr (order', ls') \<Longrightarrow> \<forall>x\<in>set ls. 0 < snd x \<Longrightarrow>
   quantity order' \<le> quantity buy_order"
proof (induction ls arbitrary: buy_order)
  case Nil
  then show ?case by simp
next
  case (Cons a ls)
  obtain ap aq where a: "a = (ap, aq)" by (cases a)
  from Cons.prems(2) a have aq: "0 < aq" by simp
  from Cons.prems(1) [unfolded a] show ?case
  proof (cases rule: match_buy_loop_Cons_cases)
    case erase
    from Cons.IH [OF erase(4)] Cons.prems(2) aq show ?thesis by simp
  qed simp_all
qed

lemma match_sell_loop_le:
  "match_sell_loop sell_order ls = Inr (order', ls') \<Longrightarrow> \<forall>x\<in>set ls. 0 < snd x \<Longrightarrow>
   quantity order' \<le> quantity sell_order"
proof (induction ls arbitrary: sell_order)
  case Nil
  then show ?case by simp
next
  case (Cons a ls)
  obtain bp bq where a: "a = (bp, bq)" by (cases a)
  from Cons.prems(2) a have bq: "0 < bq" by simp
  from Cons.prems(1) [unfolded a] show ?case
  proof (cases rule: match_sell_loop_Cons_cases)
    case erase
    from Cons.IH [OF erase(4)] Cons.prems(2) bq show ?thesis by simp
  qed simp_all
qed

lemma positive_levels_total_nonneg: "positive_levels m \<Longrightarrow> 0 \<le> total_quantity m"
  unfolding total_quantity_def positive_levels_def
  by (intro sum_list_nonneg) auto

lemma positive_levels_le_total:
  "positive_levels m \<Longrightarrow> x \<in> set m \<Longrightarrow> snd x \<le> total_quantity m"
proof (induction m)
  case Nil
  then show ?case by simp
next
  case (Cons a m)
  from Cons.prems(1) have pa: "0 < snd a" and pm: "positive_levels m"
    by (simp_all add: positive_levels_def)
  note nonneg = positive_levels_total_nonneg [OF pm]
  show ?case
  proof (cases "x = a")
    case True
    with nonneg show ?thesis by (simp add: total_quantity_def)
  next
    case False
    with Cons.prems(2) have "x \<in> set m" by simp
    from Cons.IH [OF pm this] pa show ?thesis by (simp add: total_quantity_def)
  qed
qed

lemma map_add_assign_defined:
  assumes "positive_levels m" and "0 < q" and "total_quantity m + q \<le> INT_MAX"
  shows "\<exists>m'. map_add_assign k q m = Inr m'"
  using assms
proof (induction m)
  case Nil
  then show ?case
    by (simp add: int_add_def is_int_def INT_MIN_def INT_MAX_def total_quantity_def)
next
  case (Cons a m)
  obtain k' v' where a: "a = (k', v')" by (cases a)
  from Cons.prems(1) a have pv: "0 < v'" and pm: "positive_levels m"
    by (simp_all add: positive_levels_def)
  note nonneg = positive_levels_total_nonneg [OF pm]
  from Cons.prems(3) a have tot: "v' + total_quantity m + q \<le> INT_MAX"
    by (simp add: total_quantity_def)
  from tot pv have "total_quantity m + q \<le> INT_MAX" by simp
  from Cons.IH [OF pm Cons.prems(2) this] obtain m1 where "map_add_assign k q m = Inr m1" ..
  moreover from tot nonneg pv Cons.prems(2) have "is_int (v' + q)" "is_int (0 + q)"
    by (simp_all add: is_int_def INT_MIN_def INT_MAX_def)
  ultimately show ?case by (simp add: a int_add_def)
qed

lemma process_order_defined:
  assumes pos: "positive_book b"
    and own: "total_quantity (bids b) + quantity order \<le> INT_MAX"
    and opp: "total_quantity (asks b) + quantity order \<le> INT_MAX"
  shows "\<exists>order' b'. process_order order b = Inr (order', b')"
proof (cases "0 < quantity order")
  case False
  then show ?thesis by (simp add: process_order_stop)
next
  case q: True
  from pos have pb: "positive_levels (bids b)" and pa: "positive_levels (asks b)"
    by (simp_all add: positive_book_def)
  note nb = positive_levels_total_nonneg [OF pb] and na = positive_levels_total_nonneg [OF pa]
  from own opp nb na have qmax: "quantity order \<le> INT_MAX" by simp
  have ba: "\<forall>x\<in>set (asks b). 0 < snd x \<and> snd x \<le> INT_MAX"
    using pa positive_levels_le_total [OF pa] opp q by (fastforce simp: positive_levels_def)
  have bb: "\<forall>x\<in>set (rev (bids b)). 0 < snd x \<and> snd x \<le> INT_MAX"
    using pb positive_levels_le_total [OF pb] own q by (fastforce simp: positive_levels_def)
  show ?thesis
  proof (cases "side order = BUY")
    case True
    from match_buy_loop_defined [OF ba qmax] obtain order' asks'
      where l: "match_buy_loop order (asks b) = Inr (order', asks')" by auto
    from match_buy_loop_le [OF l] pa have le: "quantity order' \<le> quantity order"
      by (simp add: positive_levels_def)
    show ?thesis
    proof (cases "0 < quantity order'")
      case False
      with l True show ?thesis by (simp add: process_order_def match_buy_def)
    next
      case r: True
      from le own have "total_quantity (bids b) + quantity order' \<le> INT_MAX" by simp
      from map_add_assign_defined [OF pb r this]
      obtain m' where "map_add_assign (price order') (quantity order') (bids b) = Inr m'" ..
      with l True r show ?thesis
        by (simp add: process_order_def match_buy_def add_to_book_def)
    qed
  next
    case False
    from match_sell_loop_defined [OF bb qmax] obtain order' rbids'
      where l: "match_sell_loop order (rev (bids b)) = Inr (order', rbids')" by auto
    from match_sell_loop_le [OF l] pb have le: "quantity order' \<le> quantity order"
      by (simp add: positive_levels_def)
    show ?thesis
    proof (cases "0 < quantity order'")
      case False
      with l \<open>side order \<noteq> BUY\<close> show ?thesis by (simp add: process_order_def match_sell_def)
    next
      case r: True
      from le opp have "total_quantity (asks b) + quantity order' \<le> INT_MAX" by simp
      from map_add_assign_defined [OF pa r this]
      obtain m' where "map_add_assign (price order') (quantity order') (asks b) = Inr m'" ..
      with l \<open>side order \<noteq> BUY\<close> r show ?thesis
        by (simp add: process_order_def match_sell_def add_to_book_def)
    qed
  qed
qed

section \<open>The level map after an addition\<close>

lemma map_of_wf_levels_None:
  "wf_levels ((k', v') # m) \<Longrightarrow> k \<le> k' \<Longrightarrow> map_of m k = None"
proof -
  assume "wf_levels ((k', v') # m)" and "k \<le> k'"
  then have "k \<notin> fst ` set m" by (auto simp: wf_levels_def)
  then show ?thesis by (simp add: map_of_eq_None_iff)
qed

lemma map_add_assign_map_of:
  "wf_levels m \<Longrightarrow> map_add_assign k q m = Inr m' \<Longrightarrow>
   map_of m' = (map_of m)(k \<mapsto> (case map_of m k of None \<Rightarrow> 0 | Some v \<Rightarrow> v) + q)"
proof (induction m arbitrary: m')
  case Nil
  then show ?case by (auto simp: int_add_def split: if_splits)
next
  case (Cons a m)
  obtain k' v' where a: "a = (k', v')" by (cases a)
  from Cons.prems(1) a have wfm: "wf_levels m" by (simp add: wf_levels_def)
  consider "k < k'" | "k = k'" | "k' < k" by linarith
  then show ?case
  proof cases
    case 1
    with map_of_wf_levels_None [of k' v' m k] Cons.prems(1) a
    have "map_of m k = None" by simp
    with 1 Cons.prems(2) a show ?thesis
      by (auto simp: int_add_def split: if_splits)
  next
    case 2
    with Cons.prems(2) a show ?thesis
      by (auto simp: int_add_def split: if_splits)
  next
    case 3
    with Cons.prems(2) a obtain m1 where m1: "map_add_assign k q m = Inr m1" "m' = (k', v') # m1"
      by (auto split: sum.splits)
    from Cons.IH [OF wfm m1(1)] 3 m1(2) a show ?thesis by auto
  qed
qed

section \<open>What the scans touch\<close>

lemma match_buy_loop_untouched:
  "match_buy_loop buy_order ls = Inr (order', ls') \<Longrightarrow>
   level \<in> set ls \<Longrightarrow> price buy_order < fst level \<Longrightarrow> level \<in> set ls'"
proof (induction ls arbitrary: buy_order)
  case Nil
  then show ?case by simp
next
  case (Cons a ls)
  obtain ap aq where a: "a = (ap, aq)" by (cases a)
  from Cons.prems(1) [unfolded a] show ?case
  proof (cases rule: match_buy_loop_Cons_cases)
    case erase
    from Cons.prems(2,3) erase(2) a have "level \<in> set ls" by auto
    from Cons.IH [OF erase(4) this] Cons.prems(3) show ?thesis by simp
  next
    case partial
    from Cons.prems(2,3) partial(2) a have "level \<in> set ls" by auto
    with partial show ?thesis by simp
  qed (use Cons.prems(2) a in simp_all)
qed

lemma match_sell_loop_untouched:
  "match_sell_loop sell_order ls = Inr (order', ls') \<Longrightarrow>
   level \<in> set ls \<Longrightarrow> fst level < price sell_order \<Longrightarrow> level \<in> set ls'"
proof (induction ls arbitrary: sell_order)
  case Nil
  then show ?case by simp
next
  case (Cons a ls)
  obtain bp bq where a: "a = (bp, bq)" by (cases a)
  from Cons.prems(1) [unfolded a] show ?case
  proof (cases rule: match_sell_loop_Cons_cases)
    case erase
    from Cons.prems(2,3) erase(2) a have "level \<in> set ls" by auto
    from Cons.IH [OF erase(4) this] Cons.prems(3) show ?thesis by simp
  next
    case partial
    from Cons.prems(2,3) partial(2) a have "level \<in> set ls" by auto
    with partial show ?thesis by simp
  qed (use Cons.prems(2) a in simp_all)
qed

lemma wf_levels_hd_least:
  "wf_levels ls \<Longrightarrow> level \<in> set ls \<Longrightarrow> fst (hd ls) \<le> fst level"
  by (cases ls) (auto simp: wf_levels_def)

lemma wf_levels_last_greatest:
  "wf_levels ls \<Longrightarrow> level \<in> set ls \<Longrightarrow> fst level \<le> fst (last ls)"
proof (induction ls)
  case Nil
  then show ?case by simp
next
  case (Cons a ls)
  show ?case
  proof (cases "ls = []")
    case True
    with Cons.prems show ?thesis by simp
  next
    case False
    from Cons.prems(1) have wf: "wf_levels ls" and lt: "\<forall>x\<in>set ls. fst a < fst x"
      by (auto simp: wf_levels_def)
    from False have "last ls \<in> set ls" by simp
    with lt have "fst a < fst (last ls)" by blast
    with Cons.prems(2) Cons.IH [OF wf] False show ?thesis by auto
  qed
qed

lemma match_buy_remaining:
  assumes "wf_book b" and "match_buy buy_order b = Inr (order', b')"
    and "0 < quantity order'" and "level \<in> set (asks b')"
  shows "price buy_order < fst level"
proof -
  from assms(2) obtain asks' where l: "match_buy_loop buy_order (asks b) = Inr (order', asks')"
    and a: "asks b' = asks'"
    by (rule match_buy_Inr)
  from match_buy_loop_keys [OF l] obtain pre where pre: "map fst (asks b) = pre @ map fst asks'" ..
  from assms(1) have "wf_levels (asks b)" by (simp add: wf_book_def)
  from wf_levels_suffix(1) [OF this pre] have wf: "wf_levels asks'" .
  from assms(4) a have ne: "asks' \<noteq> []" by auto
  with match_buy_loop_barrier [OF l assms(3)] have "price buy_order < fst (hd asks')" by simp
  with wf_levels_hd_least [OF wf] assms(4) a show ?thesis by fastforce
qed

lemma match_sell_remaining:
  assumes "wf_book b" and "match_sell sell_order b = Inr (order', b')"
    and "0 < quantity order'" and "level \<in> set (bids b')"
  shows "fst level < price sell_order"
proof -
  from assms(2) obtain rbids' where l: "match_sell_loop sell_order (rev (bids b)) = Inr (order', rbids')"
    and a: "bids b' = rev rbids'"
    by (rule match_sell_Inr)
  from match_sell_loop_keys [OF l] obtain pre
    where pre: "map fst (rev (bids b)) = pre @ map fst rbids'" ..
  then have "rev (map fst (rev (bids b))) = rev (pre @ map fst rbids')" by simp
  then have post: "map fst (bids b) = map fst (bids b') @ rev pre"
    by (simp add: rev_map a)
  from assms(1) have "wf_levels (bids b)" by (simp add: wf_book_def)
  from wf_levels_prefix(1) [OF this post] have wf: "wf_levels (bids b')" .
  from assms(4) a have ne: "rbids' \<noteq> []" by auto
  with match_sell_loop_barrier [OF l assms(3)] have "fst (hd rbids') < price sell_order" by simp
  moreover from ne a have "fst (hd rbids') = fst (last (bids b'))" by (simp add: last_rev)
  ultimately show ?thesis using wf_levels_last_greatest [OF wf assms(4)] by simp
qed

lemma match_buy_untouched:
  assumes "match_buy buy_order b = Inr (order', b')"
    and "level \<in> set (asks b)" and "price buy_order < fst level"
  shows "level \<in> set (asks b')"
proof -
  from assms(1) obtain asks' where l: "match_buy_loop buy_order (asks b) = Inr (order', asks')"
    and a: "asks b' = asks'"
    by (rule match_buy_Inr)
  from match_buy_loop_untouched [OF l assms(2,3)] a show ?thesis by simp
qed

lemma match_sell_untouched:
  assumes "match_sell sell_order b = Inr (order', b')"
    and "level \<in> set (bids b)" and "fst level < price sell_order"
  shows "level \<in> set (bids b')"
proof -
  from assms(1) obtain rbids' where l: "match_sell_loop sell_order (rev (bids b)) = Inr (order', rbids')"
    and a: "bids b' = rev rbids'"
    by (rule match_sell_Inr)
  from assms(2) have "level \<in> set (rev (bids b))" by simp
  from match_sell_loop_untouched [OF l this assms(3)] a show ?thesis by simp
qed

lemma match_buy_loop_new_level:
  "match_buy_loop buy_order ls = Inr (order', ls') \<Longrightarrow> level \<in> set ls' \<Longrightarrow>
   level \<in> set ls \<or> 0 < snd level"
proof (induction ls arbitrary: buy_order)
  case Nil
  then show ?case by simp
next
  case (Cons a ls)
  obtain ap aq where a: "a = (ap, aq)" by (cases a)
  from Cons.prems(1) [unfolded a] show ?case
  proof (cases rule: match_buy_loop_Cons_cases)
    case erase
    from Cons.IH [OF erase(4) Cons.prems(2)] show ?thesis by auto
  next
    case partial
    with Cons.prems(2) show ?thesis by auto
  qed (use Cons.prems(2) a in simp_all)
qed

lemma match_sell_loop_new_level:
  "match_sell_loop sell_order ls = Inr (order', ls') \<Longrightarrow> level \<in> set ls' \<Longrightarrow>
   level \<in> set ls \<or> 0 < snd level"
proof (induction ls arbitrary: sell_order)
  case Nil
  then show ?case by simp
next
  case (Cons a ls)
  obtain bp bq where a: "a = (bp, bq)" by (cases a)
  from Cons.prems(1) [unfolded a] show ?case
  proof (cases rule: match_sell_loop_Cons_cases)
    case erase
    from Cons.IH [OF erase(4) Cons.prems(2)] show ?thesis by auto
  next
    case partial
    with Cons.prems(2) show ?thesis by auto
  qed (use Cons.prems(2) a in simp_all)
qed

lemma match_buy_new_level:
  assumes "match_buy buy_order b = Inr (order', b')" and "level \<in> set (asks b')"
  shows "level \<in> set (asks b) \<or> 0 < snd level"
proof -
  from assms(1) obtain asks' where l: "match_buy_loop buy_order (asks b) = Inr (order', asks')"
    and a: "asks b' = asks'"
    by (rule match_buy_Inr)
  from match_buy_loop_new_level [OF l] assms(2) a show ?thesis by simp
qed

lemma match_sell_new_level:
  assumes "match_sell sell_order b = Inr (order', b')" and "level \<in> set (bids b')"
  shows "level \<in> set (bids b) \<or> 0 < snd level"
proof -
  from assms(1) obtain rbids' where l: "match_sell_loop sell_order (rev (bids b)) = Inr (order', rbids')"
    and a: "bids b' = rev rbids'"
    by (rule match_sell_Inr)
  from assms(2) a have "level \<in> set rbids'" by simp
  from match_sell_loop_new_level [OF l this] show ?thesis by simp
qed

section \<open>Totals, and runs that are defined\<close>

lemma process_order_totals:
  assumes "0 < quantity order" and "process_order order b = Inr (order', b')"
  shows "side order = BUY \<Longrightarrow>
           total_quantity (asks b) - total_quantity (asks b') = quantity order - quantity order'
         \<and> total_quantity (bids b') - total_quantity (bids b) = quantity order'"
    and "side order = SELL \<Longrightarrow>
           total_quantity (bids b) - total_quantity (bids b') = quantity order - quantity order'
         \<and> total_quantity (asks b') - total_quantity (asks b) = quantity order'"
proof -
  assume buy: "side order = BUY"
  with assms(2) have m: "match_buy order b = Inr (order', b')" by (simp add: process_order_def)
  then obtain asks' where l: "match_buy_loop order (asks b) = Inr (order', asks')"
    and a: "asks b' = asks'"
    and add: "0 < quantity order' \<Longrightarrow>
           map_add_assign (price order) (quantity order') (bids b) = Inr (bids b')"
    and same: "\<not> 0 < quantity order' \<Longrightarrow> bids b' = bids b"
    by (rule match_buy_Inr) blast
  from match_buy_loop_conserve [OF l] a
  have c: "quantity order - quantity order' = total_quantity (asks b) - total_quantity (asks b')"
    by (simp add: total_quantity_def)
  have "total_quantity (bids b') - total_quantity (bids b) = quantity order'"
  proof (cases "0 < quantity order'")
    case True
    from map_add_assign_total [OF add [OF True]] show ?thesis by simp
  next
    case False
    with match_buy_loop_nonneg [OF l assms(1)] same [OF False] show ?thesis by simp
  qed
  with c show "total_quantity (asks b) - total_quantity (asks b') = quantity order - quantity order'
         \<and> total_quantity (bids b') - total_quantity (bids b) = quantity order'" by simp
next
  assume "side order = SELL"
  with assms(2) have m: "match_sell order b = Inr (order', b')"
    by (simp add: process_order_def)
  then obtain rbids' where l: "match_sell_loop order (rev (bids b)) = Inr (order', rbids')"
    and a: "bids b' = rev rbids'"
    and add: "0 < quantity order' \<Longrightarrow>
           map_add_assign (price order) (quantity order') (asks b) = Inr (asks b')"
    and same: "\<not> 0 < quantity order' \<Longrightarrow> asks b' = asks b"
    by (rule match_sell_Inr) blast
  from match_sell_loop_conserve [OF l] a
  have c: "quantity order - quantity order' = total_quantity (bids b) - total_quantity (bids b')"
    by (simp add: total_quantity_def rev_map [symmetric])
  have "total_quantity (asks b') - total_quantity (asks b) = quantity order'"
  proof (cases "0 < quantity order'")
    case True
    from map_add_assign_total [OF add [OF True]] show ?thesis by simp
  next
    case False
    with match_sell_loop_nonneg [OF l assms(1)] same [OF False] show ?thesis by simp
  qed
  with c show "total_quantity (bids b) - total_quantity (bids b') = quantity order - quantity order'
         \<and> total_quantity (asks b') - total_quantity (asks b) = quantity order'" by simp
qed

lemma process_order_remaining_le:
  assumes "positive_book b" and "process_order order b = Inr (order', b')"
  shows "quantity order' \<le> quantity order"
proof (cases "side order = BUY")
  case True
  with assms(2) have "match_buy order b = Inr (order', b')" by (simp add: process_order_def)
  then obtain asks' where "match_buy_loop order (asks b) = Inr (order', asks')"
    by (rule match_buy_Inr)
  from match_buy_loop_le [OF this] assms(1) show ?thesis
    by (simp add: positive_book_def positive_levels_def)
next
  case False
  with assms(2) have "match_sell order b = Inr (order', b')" by (simp add: process_order_def)
  then obtain rbids' where "match_sell_loop order (rev (bids b)) = Inr (order', rbids')"
    by (rule match_sell_Inr)
  from match_sell_loop_le [OF this] assms(1) show ?thesis
    by (simp add: positive_book_def positive_levels_def)
qed

lemma process_order_total_le:
  assumes "0 < quantity order" and "positive_book b"
    and "process_order order b = Inr (order', b')"
  shows "total_quantity (bids b') + total_quantity (asks b')
    \<le> total_quantity (bids b) + total_quantity (asks b) + quantity order"
proof -
  note le = process_order_remaining_le [OF assms(2,3)]
  show ?thesis
  proof (cases "side order")
    case BUY
    from process_order_totals(1) [OF assms(1,3) BUY] le show ?thesis by linarith
  next
    case SELL
    from process_order_totals(2) [OF assms(1,3) SELL] le show ?thesis by linarith
  qed
qed

lemma process_all_defined:
  assumes "\<forall>order \<in> set orders. 0 < quantity order" and "positive_book b"
    and "total_quantity (bids b) + total_quantity (asks b) + sum_list (map quantity orders)
      \<le> INT_MAX"
  shows "\<exists>b'. process_all orders b = Inr b'"
  using assms
proof (induction orders arbitrary: b)
  case Nil
  then show ?case by simp
next
  case (Cons order orders)
  from Cons.prems(1) have q: "0 < quantity order" and rest: "\<forall>order \<in> set orders. 0 < quantity order"
    by simp_all
  from rest have s: "0 \<le> sum_list (map quantity orders)"
    by (intro sum_list_nonneg) auto
  from Cons.prems(2) have nb: "0 \<le> total_quantity (bids b)" and na: "0 \<le> total_quantity (asks b)"
    by (simp_all add: positive_book_def positive_levels_total_nonneg)
  from Cons.prems(3) have bound:
    "total_quantity (bids b) + total_quantity (asks b) + quantity order
       + sum_list (map quantity orders) \<le> INT_MAX"
    by simp
  from bound s nb na have "total_quantity (bids b) + quantity order \<le> INT_MAX"
    and "total_quantity (asks b) + quantity order \<le> INT_MAX"
    by linarith+
  from process_order_defined [OF Cons.prems(2) this]
  obtain order' b1 where step: "process_order order b = Inr (order', b1)" by blast
  note pos = process_order_positive [OF Cons.prems(2) step]
  from process_order_total_le [OF q Cons.prems(2) step] bound
  have "total_quantity (bids b1) + total_quantity (asks b1) + sum_list (map quantity orders)
      \<le> INT_MAX"
    by linarith
  from Cons.IH [OF rest pos this] step show ?case by simp
qed

section \<open>The claims about the order book\<close>

text \<open>
  C1 (no crossed book). The book of the matching engine starts empty and is changed by
  \<open>process_order\<close> only. For every book the engine can hold and every order, after one more
  call of \<open>process_order\<close>, if both sides are non-empty then the best (highest) bid price is
  strictly below the best (lowest) ask price.
\<close>

theorem process_order_never_crossed:
  assumes "process_all orders empty_book = Inr b"
    and "process_order order b = Inr (order', b')"
    and "best_bid b' = Some (bid_price, bid_quantity)"
    and "best_ask b' = Some (ask_price, ask_quantity)"
  shows "bid_price < ask_price"
proof -
  from empty_book_inv process_all_inv [OF _ _ assms(1)]
  have "wf_book b \<and> uncrossed b" by simp
  with process_order_inv [OF _ _ assms(2)] have "uncrossed b'" by simp
  with assms(3,4) show ?thesis
    by (auto simp: uncrossed_def best_bid_def best_ask_def split: if_splits)
qed

theorem process_order_never_crossed_witness:
  "process_all [mk_order BUY 5 99, mk_order BUY 10 100, mk_order SELL 5 103] empty_book
     = Inr \<lparr>bids = [(99, 5), (100, 10)], asks = [(103, 5)]\<rparr>
   \<and> process_order (mk_order SELL 12 100) \<lparr>bids = [(99, 5), (100, 10)], asks = [(103, 5)]\<rparr>
     = Inr (mk_order SELL 2 100, \<lparr>bids = [(99, 5)], asks = [(100, 2), (103, 5)]\<rparr>)
   \<and> best_bid \<lparr>bids = [(99, 5)], asks = [(100, 2), (103, 5)]\<rparr> = Some (99, 5)
   \<and> best_ask \<lparr>bids = [(99, 5)], asks = [(100, 2), (103, 5)]\<rparr> = Some (100, 2)
   \<and> (99 :: int) < 100"
proof -
  have a: "process_all [mk_order BUY 5 99, mk_order BUY 10 100, mk_order SELL 5 103] empty_book
     = Inr \<lparr>bids = [(99, 5), (100, 10)], asks = [(103, 5)]\<rparr>"
    by code_simp
  have b: "process_order (mk_order SELL 12 100) \<lparr>bids = [(99, 5), (100, 10)], asks = [(103, 5)]\<rparr>
     = Inr (mk_order SELL 2 100, \<lparr>bids = [(99, 5)], asks = [(100, 2), (103, 5)]\<rparr>)"
    by code_simp
  have c: "best_bid \<lparr>bids = [(99, 5)], asks = [(100, 2), (103, 5)]\<rparr> = Some (99, 5)"
    by (simp add: best_bid_def)
  have d: "best_ask \<lparr>bids = [(99, 5)], asks = [(100, 2), (103, 5)]\<rparr> = Some (100, 2)"
    by (simp add: best_ask_def)
  from process_order_never_crossed [OF a b c d] a b c d show ?thesis by simp
qed

text \<open>
  C2 (\<open>match_buy\<close>). For a BUY order with positive quantity, \<open>process_order\<close> leaves the book
  that the specification's description of \<open>match_buy\<close> gives (\<open>spec_match_buy\<close>: scan the
  asks from the lowest price while quantity remains and the ask price is at most the order
  price, subtract the minimum of the two quantities from both, remove a level exactly when
  it reaches 0, stop at the first ask above the order price or at the end, and add what
  remains to the bids at the order price). In particular every ask above the order price
  is left as it was, every ask level that the scan changed and kept has a positive
  quantity, and when quantity remains for the bids no ask at or below the order price is
  left. SELL 5 at 101, SELL 5 at 102, then BUY 12 at 102, from the empty book, end with no
  asks and the bids \<open>{102: 2}\<close>.
\<close>

theorem match_buy_refines_spec:
  assumes "side order = BUY" and "0 < quantity order" and "wf_book b"
    and "process_order order b = Inr (order', b')"
  shows "b' = spec_match_buy (price order) (quantity order) b
    \<and> (\<forall>level \<in> set (asks b). price order < fst level \<longrightarrow> level \<in> set (asks b'))
    \<and> (\<forall>level \<in> set (asks b'). level \<in> set (asks b) \<or> 0 < snd level)
    \<and> (0 < quantity order' \<longrightarrow> (\<forall>level \<in> set (asks b'). price order < fst level))
    \<and> process_all [mk_order SELL 5 101, mk_order SELL 5 102, mk_order BUY 12 102] empty_book
        = Inr \<lparr>bids = [(102, 2)], asks = []\<rparr>"
proof -
  from assms(1,4) have m: "match_buy order b = Inr (order', b')"
    by (simp add: process_order_def)
  have "process_all [mk_order SELL 5 101, mk_order SELL 5 102, mk_order BUY 12 102] empty_book
        = Inr \<lparr>bids = [(102, 2)], asks = []\<rparr>"
    by code_simp
  with match_buy_spec [OF assms(3) m] match_buy_untouched [OF m] match_buy_new_level [OF m]
    match_buy_remaining [OF assms(3) m]
  show ?thesis by blast
qed

theorem match_buy_refines_spec_witness:
  "side (mk_order BUY 8 102) = BUY \<and> 0 < quantity (mk_order BUY 8 102)
   \<and> wf_book \<lparr>bids = [(99, 1)], asks = [(101, 5), (102, 5), (104, 7)]\<rparr>
   \<and> process_order (mk_order BUY 8 102) \<lparr>bids = [(99, 1)], asks = [(101, 5), (102, 5), (104, 7)]\<rparr>
       = Inr (mk_order BUY 0 102, \<lparr>bids = [(99, 1)], asks = [(102, 2), (104, 7)]\<rparr>)
   \<and> \<lparr>bids = [(99, 1)], asks = [(102, 2), (104, 7)]\<rparr>
       = spec_match_buy 102 8 \<lparr>bids = [(99, 1)], asks = [(101, 5), (102, 5), (104, 7)]\<rparr>
   \<and> (102 :: int) < fst (104 :: int, 7 :: int)
   \<and> (104 :: int, 7 :: int) \<in> set [(102, 2), (104, 7)]
   \<and> 0 < snd (102 :: int, 2 :: int)"
proof -
  have a: "side (mk_order BUY 8 102) = BUY" and b: "0 < quantity (mk_order BUY 8 102)"
    by (simp_all add: mk_order_def)
  have c: "wf_book \<lparr>bids = [(99, 1)], asks = [(101, 5), (102, 5), (104, 7)]\<rparr>"
    by (simp add: wf_book_def wf_levels_def)
  have d: "process_order (mk_order BUY 8 102) \<lparr>bids = [(99, 1)], asks = [(101, 5), (102, 5), (104, 7)]\<rparr>
       = Inr (mk_order BUY 0 102, \<lparr>bids = [(99, 1)], asks = [(102, 2), (104, 7)]\<rparr>)"
    by code_simp
  from match_buy_refines_spec [OF a b c d] a b c d show ?thesis
    by (simp add: mk_order_def)
qed

text \<open>
  C3 (\<open>match_sell\<close>). For a SELL order with positive quantity, \<open>process_order\<close> leaves the book
  that the specification's description of \<open>match_sell\<close> gives (\<open>spec_match_sell\<close>: the same
  scan over the bids from the highest price downward, while the bid price is at least the
  order price, the remainder added to the asks at the order price). In particular every bid
  below the order price is left as it was, every bid level that the scan changed and kept
  has a positive quantity, and when quantity remains for the asks no bid at or above the
  order price is left. From the bids \<open>{100: 10}\<close> and no asks, SELL 4 at 99 leaves the bids
  \<open>{100: 6}\<close> and no asks.
\<close>

theorem match_sell_refines_spec:
  assumes "side order = SELL" and "0 < quantity order" and "wf_book b"
    and "process_order order b = Inr (order', b')"
  shows "b' = spec_match_sell (price order) (quantity order) b
    \<and> (\<forall>level \<in> set (bids b). fst level < price order \<longrightarrow> level \<in> set (bids b'))
    \<and> (\<forall>level \<in> set (bids b'). level \<in> set (bids b) \<or> 0 < snd level)
    \<and> (0 < quantity order' \<longrightarrow> (\<forall>level \<in> set (bids b'). fst level < price order))
    \<and> process_order (mk_order SELL 4 99) \<lparr>bids = [(100, 10)], asks = []\<rparr>
        = Inr (mk_order SELL 0 99, \<lparr>bids = [(100, 6)], asks = []\<rparr>)"
proof -
  from assms(1,4) have m: "match_sell order b = Inr (order', b')"
    by (simp add: process_order_def)
  have "process_order (mk_order SELL 4 99) \<lparr>bids = [(100, 10)], asks = []\<rparr>
        = Inr (mk_order SELL 0 99, \<lparr>bids = [(100, 6)], asks = []\<rparr>)"
    by code_simp
  with match_sell_spec [OF assms(3) m] match_sell_untouched [OF m] match_sell_new_level [OF m]
    match_sell_remaining [OF assms(3) m]
  show ?thesis by blast
qed

theorem match_sell_refines_spec_witness:
  "side (mk_order SELL 12 100) = SELL \<and> 0 < quantity (mk_order SELL 12 100)
   \<and> wf_book \<lparr>bids = [(99, 5), (100, 10)], asks = [(103, 5)]\<rparr>
   \<and> process_order (mk_order SELL 12 100) \<lparr>bids = [(99, 5), (100, 10)], asks = [(103, 5)]\<rparr>
       = Inr (mk_order SELL 2 100, \<lparr>bids = [(99, 5)], asks = [(100, 2), (103, 5)]\<rparr>)
   \<and> \<lparr>bids = [(99, 5)], asks = [(100, 2), (103, 5)]\<rparr>
       = spec_match_sell 100 12 \<lparr>bids = [(99, 5), (100, 10)], asks = [(103, 5)]\<rparr>
   \<and> fst (99 :: int, 5 :: int) < (100 :: int)
   \<and> (99 :: int, 5 :: int) \<in> set [(99, 5)]
   \<and> 0 < quantity (mk_order SELL 2 100)"
proof -
  have a: "side (mk_order SELL 12 100) = SELL" and b: "0 < quantity (mk_order SELL 12 100)"
    by (simp_all add: mk_order_def)
  have c: "wf_book \<lparr>bids = [(99, 5), (100, 10)], asks = [(103, 5)]\<rparr>"
    by (simp add: wf_book_def wf_levels_def)
  have d: "process_order (mk_order SELL 12 100) \<lparr>bids = [(99, 5), (100, 10)], asks = [(103, 5)]\<rparr>
       = Inr (mk_order SELL 2 100, \<lparr>bids = [(99, 5)], asks = [(100, 2), (103, 5)]\<rparr>)"
    by code_simp
  from match_sell_refines_spec [OF a b c d] a b c d show ?thesis
    by (simp add: mk_order_def)
qed



text \<open>
  C5 (no non-positive levels). In every book that the engine reaches from the empty book by
  processing orders with positive quantity, every price level on either side has a strictly
  positive quantity: a level that reaches zero during matching has been removed, none is
  kept at zero or below.
\<close>

theorem reachable_levels_positive:
  assumes "\<forall>order \<in> set orders. 0 < quantity order"
    and "process_all orders empty_book = Inr b"
  shows "\<forall>level \<in> set (bids b) \<union> set (asks b). 0 < snd level"
  using process_all_positive [OF assms(2)]
  by (auto simp: positive_book_def positive_levels_def)

theorem reachable_levels_positive_witness:
  "0 < quantity (mk_order SELL 5 101) \<and> 0 < quantity (mk_order SELL 5 102)
   \<and> 0 < quantity (mk_order BUY 7 101)
   \<and> process_all [mk_order SELL 5 101, mk_order SELL 5 102, mk_order BUY 7 101] empty_book
       = Inr \<lparr>bids = [(101, 2)], asks = [(102, 5)]\<rparr>
   \<and> 0 < snd (101 :: int, 2 :: int) \<and> 0 < snd (102 :: int, 5 :: int)"
proof -
  have a: "\<forall>order \<in> set [mk_order SELL 5 101, mk_order SELL 5 102, mk_order BUY 7 101].
      0 < quantity order"
    by (simp add: mk_order_def)
  have b: "process_all [mk_order SELL 5 101, mk_order SELL 5 102, mk_order BUY 7 101] empty_book
       = Inr \<lparr>bids = [(101, 2)], asks = [(102, 5)]\<rparr>"
    by code_simp
  from reachable_levels_positive [OF a b] a b show ?thesis by simp
qed

text \<open>
  C8 (aggregation). \<open>add_to_book\<close> adds the quantity to the level of the price in the map of
  the given side, creating the level when the price has none, and leaves the other side
  alone. On either side, adding 5 and then 3 at one price to an empty side gives exactly one
  level at that price, with quantity 8.
\<close>

theorem add_to_book_aggregates:
  assumes "wf_book b" and "add_to_book p q s b = Inr b'"
  shows "(s = BUY \<longrightarrow> asks b' = asks b
            \<and> map_of (bids b')
              = (map_of (bids b))(p \<mapsto> (case map_of (bids b) p of None \<Rightarrow> 0 | Some v \<Rightarrow> v) + q))
       \<and> (s = SELL \<longrightarrow> bids b' = bids b
            \<and> map_of (asks b')
              = (map_of (asks b))(p \<mapsto> (case map_of (asks b) p of None \<Rightarrow> 0 | Some v \<Rightarrow> v) + q))
       \<and> add_to_book p 5 BUY (b\<lparr>bids := []\<rparr>) = Inr (b\<lparr>bids := [(p, 5)]\<rparr>)
       \<and> add_to_book p 3 BUY (b\<lparr>bids := [(p, 5)]\<rparr>) = Inr (b\<lparr>bids := [(p, 8)]\<rparr>)
       \<and> add_to_book p 5 SELL (b\<lparr>asks := []\<rparr>) = Inr (b\<lparr>asks := [(p, 5)]\<rparr>)
       \<and> add_to_book p 3 SELL (b\<lparr>asks := [(p, 5)]\<rparr>) = Inr (b\<lparr>asks := [(p, 8)]\<rparr>)"
proof -
  from assms(1) have wfb: "wf_levels (bids b)" and wfa: "wf_levels (asks b)"
    by (simp_all add: wf_book_def)
  have buy: "asks b' = asks b \<and> map_of (bids b')
      = (map_of (bids b))(p \<mapsto> (case map_of (bids b) p of None \<Rightarrow> 0 | Some v \<Rightarrow> v) + q)"
    if "s = BUY"
  proof -
    from assms(2) that obtain m where m: "map_add_assign p q (bids b) = Inr m"
      and b': "b' = b\<lparr>bids := m\<rparr>"
      by (auto simp: add_to_book_def split: sum.splits)
    from map_add_assign_map_of [OF wfb m] b' show ?thesis by simp
  qed
  have sell: "bids b' = bids b \<and> map_of (asks b')
      = (map_of (asks b))(p \<mapsto> (case map_of (asks b) p of None \<Rightarrow> 0 | Some v \<Rightarrow> v) + q)"
    if "s = SELL"
  proof -
    from assms(2) that obtain m where m: "map_add_assign p q (asks b) = Inr m"
      and b': "b' = b\<lparr>asks := m\<rparr>"
      by (auto simp: add_to_book_def split: sum.splits)
    from map_add_assign_map_of [OF wfa m] b' show ?thesis by simp
  qed
  have "add_to_book p 5 BUY (b\<lparr>bids := []\<rparr>) = Inr (b\<lparr>bids := [(p, 5)]\<rparr>)"
    "add_to_book p 3 BUY (b\<lparr>bids := [(p, 5)]\<rparr>) = Inr (b\<lparr>bids := [(p, 8)]\<rparr>)"
    "add_to_book p 5 SELL (b\<lparr>asks := []\<rparr>) = Inr (b\<lparr>asks := [(p, 5)]\<rparr>)"
    "add_to_book p 3 SELL (b\<lparr>asks := [(p, 5)]\<rparr>) = Inr (b\<lparr>asks := [(p, 8)]\<rparr>)"
    by (simp_all add: add_to_book_def int_add_def is_int_def INT_MIN_def INT_MAX_def)
  with buy sell show ?thesis by blast
qed

theorem add_to_book_aggregates_witness:
  "wf_book \<lparr>bids = [(99, 5)], asks = [(103, 5)]\<rparr>
   \<and> add_to_book 99 3 BUY \<lparr>bids = [(99, 5)], asks = [(103, 5)]\<rparr>
       = Inr \<lparr>bids = [(99, 8)], asks = [(103, 5)]\<rparr>
   \<and> map_of [(99 :: int, 8 :: int)] = (map_of [(99, 5)])(99 \<mapsto> 5 + 3)
   \<and> add_to_book 99 5 SELL \<lparr>bids = [(99, 5)], asks = []\<rparr>
       = Inr \<lparr>bids = [(99, 5)], asks = [(99, 5)]\<rparr>
   \<and> add_to_book 99 3 SELL \<lparr>bids = [(99, 5)], asks = [(99, 5)]\<rparr>
       = Inr \<lparr>bids = [(99, 5)], asks = [(99, 8)]\<rparr>"
proof -
  have a: "wf_book \<lparr>bids = [(99, 5)], asks = [(103, 5)]\<rparr>"
    by (simp add: wf_book_def wf_levels_def)
  have b: "add_to_book 99 3 BUY \<lparr>bids = [(99, 5)], asks = [(103, 5)]\<rparr>
       = Inr \<lparr>bids = [(99, 8)], asks = [(103, 5)]\<rparr>"
    by code_simp
  from add_to_book_aggregates [OF a b] a b show ?thesis by simp
qed

text \<open>
  C10 (orders without quantity). For every order whose quantity is zero or negative and
  every book, \<open>process_order\<close> returns the order and the book as they were: no level of the
  opposing side is decremented or removed, none is created or increased on the own side.
\<close>

theorem process_order_nonpositive_quantity:
  "quantity order \<le> 0 \<Longrightarrow> process_order order b = Inr (order, b)"
  by (simp add: process_order_stop)

theorem process_order_nonpositive_quantity_witness:
  "quantity (mk_order BUY (- 3) 105) \<le> 0
   \<and> process_order (mk_order BUY (- 3) 105) \<lparr>bids = [(99, 5)], asks = [(103, 5)]\<rparr>
       = Inr (mk_order BUY (- 3) 105, \<lparr>bids = [(99, 5)], asks = [(103, 5)]\<rparr>)
   \<and> quantity (mk_order SELL 0 90) \<le> 0
   \<and> process_order (mk_order SELL 0 90) \<lparr>bids = [(99, 5)], asks = [(103, 5)]\<rparr>
       = Inr (mk_order SELL 0 90, \<lparr>bids = [(99, 5)], asks = [(103, 5)]\<rparr>)"
proof -
  have a: "quantity (mk_order BUY (- 3) 105) \<le> 0" and b: "quantity (mk_order SELL 0 90) \<le> 0"
    by (simp_all add: mk_order_def)
  from process_order_nonpositive_quantity [OF a] process_order_nonpositive_quantity [OF b] a b
  show ?thesis by simp
qed

section \<open>Rounding to double precision\<close>

lemma bitlen_powi_bounds:
  assumes "0 < a"
  shows "(2 :: rat) powi (bitlen a - 1) \<le> of_int a" and "of_int a < (2 :: rat) powi bitlen a"
proof -
  from assms have b1: "1 \<le> bitlen a" by (simp add: bitlen_alt_def)
  from bitlen_bounds [OF assms]
  have lo: "2 ^ nat (bitlen a - 1) \<le> a" and hi: "a < 2 ^ nat (bitlen a)" by simp_all
  from lo have "(of_int (2 ^ nat (bitlen a - 1)) :: rat) \<le> of_int a"
    by (simp only: of_int_le_iff)
  with b1 show "(2 :: rat) powi (bitlen a - 1) \<le> of_int a"
    by (simp add: power_int_def)
  from hi have "(of_int a :: rat) < of_int (2 ^ nat (bitlen a))"
    by (simp only: of_int_less_iff)
  with b1 show "of_int a < (2 :: rat) powi bitlen a"
    by (simp add: power_int_def)
qed

lemma ilog2_bounds:
  assumes "0 < x"
  shows "2 powi ilog2 x \<le> x" and "x < 2 powi (ilog2 x + 1)"
proof -
  obtain a b where q: "quotient_of x = (a, b)" by (cases "quotient_of x")
  then have b: "0 < b" and x: "x = of_int a / of_int b"
    by (simp_all add: quotient_of_denom_pos quotient_of_div)
  from assms x b have a: "0 < a" by (simp add: zero_less_divide_iff)
  define e where "e = bitlen a - bitlen b"
  note ba = bitlen_powi_bounds [OF a] and bb = bitlen_powi_bounds [OF b]
  have bpos: "(0 :: rat) < of_int b" using b by simp
  have lo: "(2 :: rat) powi (e - 1) \<le> x"
  proof -
    have "(2 :: rat) powi (e - 1) * of_int b \<le> 2 powi (e - 1) * 2 powi bitlen b"
      using bb(2) by (intro mult_left_mono) simp_all
    also have "\<dots> = 2 powi (bitlen a - 1)"
      by (simp add: e_def power_int_add [symmetric])
    also have "\<dots> \<le> of_int a" by (rule ba(1))
    finally show ?thesis using bpos by (simp add: x pos_le_divide_eq)
  qed
  have hi: "x < (2 :: rat) powi (e + 1)"
  proof -
    have "of_int a < (2 :: rat) powi bitlen a" by (rule ba(2))
    also have "\<dots> = 2 powi (e + 1) * 2 powi (bitlen b - 1)"
      by (simp add: e_def power_int_add [symmetric])
    also have "\<dots> \<le> 2 powi (e + 1) * of_int b"
      using bb(1) by (intro mult_left_mono) simp_all
    finally show ?thesis using bpos by (simp add: x pos_divide_less_eq)
  qed
  have il: "ilog2 x = (if 2 powi e \<le> x then e else e - 1)"
    by (simp add: ilog2_def q e_def Let_def)
  show "2 powi ilog2 x \<le> x" using lo by (simp add: il)
  show "x < 2 powi (ilog2 x + 1)" using hi by (auto simp: il not_le)
qed

lemma round_half_even_error: "\<bar>of_int (round_half_even x) - x\<bar> \<le> 1 / 2"
proof -
  have "of_int \<lfloor>x\<rfloor> \<le> x" "x < of_int \<lfloor>x\<rfloor> + 1" by linarith+
  then show ?thesis
    by (auto simp: round_half_even_def Let_def)
qed

lemma round_half_even_of_int [simp]: "round_half_even (of_int k) = k"
  by (simp add: round_half_even_def)

lemma round_half_even_ge:
  assumes "of_int K - 1 / 2 < z"
  shows "K \<le> round_half_even z"
proof -
  from round_half_even_error [of z] have "z - 1 / 2 \<le> of_int (round_half_even z)" by linarith
  with assms have "(of_int K :: rat) - 1 < of_int (round_half_even z)" by linarith
  then have "(of_int (K - 1) :: rat) < of_int (round_half_even z)" by simp
  then have "K - 1 < round_half_even z" by (simp only: of_int_less_iff)
  then show ?thesis by simp
qed

lemma rd_error:
  assumes "0 < x"
  shows "\<bar>rd x - x\<bar> \<le> x / 2 ^ 53"
proof -
  define u :: rat where "u = 2 powi (ilog2 \<bar>x\<bar> - 52)"
  have upos: "0 < u" by (simp add: u_def)
  from assms have r: "rd x = of_int (round_half_even (x / u)) * u"
    by (simp add: rd_def u_def Let_def)
  have "rd x - x = (of_int (round_half_even (x / u)) - x / u) * u"
    using upos by (simp add: r left_diff_distrib)
  then have "\<bar>rd x - x\<bar> = \<bar>of_int (round_half_even (x / u)) - x / u\<bar> * u"
    using upos by (simp add: abs_mult)
  also have "\<dots> \<le> 1 / 2 * u"
    using upos round_half_even_error [of "x / u"] by (intro mult_right_mono) simp_all
  also have "u = 2 powi ilog2 x / 2 ^ 52"
    using assms by (simp add: u_def power_int_diff)
  also have "1 / 2 * (2 powi ilog2 x / 2 ^ 52) \<le> 1 / 2 * (x / 2 ^ 52)"
    using ilog2_bounds(1) [OF assms] by (intro mult_left_mono divide_right_mono) simp_all
  finally show ?thesis by simp
qed

lemma rd_nonneg: "0 \<le> x \<Longrightarrow> 0 \<le> rd x"
proof (cases "x = 0")
  case True
  then show ?thesis by (simp add: rd_def)
next
  case False
  assume "0 \<le> x"
  with False have x: "0 < x" by simp
  from rd_error [OF x] have "x - x / 2 ^ 53 \<le> rd x" by linarith
  moreover have "x / 2 ^ 53 \<le> x" using x by (simp add: field_simps)
  ultimately show ?thesis by linarith
qed

lemma rd_upper: "0 < x \<Longrightarrow> rd x \<le> x * (1 + 1 / 2 ^ 53)"
proof -
  assume "0 < x"
  from rd_error [OF this] have "rd x \<le> x + x / 2 ^ 53" by linarith
  also have "\<dots> = x * (1 + 1 / 2 ^ 53)" by (simp add: distrib_left)
  finally show ?thesis .
qed

lemma rd_lower: "0 < x \<Longrightarrow> x * (1 - 1 / 2 ^ 53) \<le> rd x"
proof -
  assume "0 < x"
  from rd_error [OF this] have "x - x / 2 ^ 53 \<le> rd x" by linarith
  moreover have "x - x / 2 ^ 53 = x * (1 - 1 / 2 ^ 53)" by (simp add: right_diff_distrib)
  ultimately show ?thesis by simp
qed

lemma rd_pos: "0 < x \<Longrightarrow> 0 < rd x"
proof -
  assume x: "0 < x"
  then have "0 < x * (1 - 1 / 2 ^ 53)" by simp
  with rd_lower [OF x] show ?thesis by linarith
qed

lemma powi_less_imp_exp_less:
  assumes "(2 :: rat) powi a < 2 powi b"
  shows "a < b"
proof (rule ccontr)
  assume "\<not> a < b"
  then have "b \<le> a" by simp
  then have "(2 :: rat) powi b \<le> 2 powi a" by (intro power_int_increasing) simp_all
  with assms show False by simp
qed

lemma rd_exact:
  assumes "\<bar>m\<bar> < 2 ^ 53"
  shows "rd (of_int m * 2 powi j) = of_int m * 2 powi j"
proof (cases "m = 0")
  case True
  then show ?thesis by (simp add: rd_def)
next
  case False
  define x :: rat where "x = of_int m * 2 powi j"
  define e where "e = ilog2 \<bar>x\<bar>"
  define u :: rat where "u = 2 powi (e - 52)"
  have ax: "\<bar>x\<bar> = of_int \<bar>m\<bar> * 2 powi j"
    by (simp add: x_def abs_mult)
  from False have xpos: "0 < \<bar>x\<bar>" by (simp add: x_def)
  from assms have "(of_int \<bar>m\<bar> :: rat) < of_int (2 ^ 53)" by (simp only: of_int_less_iff)
  then have "\<bar>x\<bar> < 2 ^ 53 * 2 powi j"
    unfolding ax by (intro mult_strict_right_mono) simp_all
  also have "\<dots> = 2 powi (53 + j)" by (simp add: power_int_add)
  finally have "(2 :: rat) powi e < 2 powi (53 + j)"
    using ilog2_bounds(1) [OF xpos] by (simp add: e_def)
  then have "e < 53 + j" by (rule powi_less_imp_exp_less)
  then have d: "0 \<le> j - (e - 52)" by simp
  have upos: "0 < u" by (simp add: u_def)
  have "x / u = of_int m * (2 powi j / 2 powi (e - 52))" by (simp add: x_def u_def)
  also have "2 powi j / 2 powi (e - 52) = (2 :: rat) powi (j - (e - 52))"
    by (simp add: power_int_diff)
  also have "\<dots> = 2 ^ nat (j - (e - 52))" using d by (simp add: power_int_def)
  finally have "x / u = of_int (m * 2 ^ nat (j - (e - 52)))" by simp
  then have "of_int (round_half_even (x / u)) = x / u"
    by (simp only: round_half_even_of_int)
  moreover from False have "rd x = of_int (round_half_even (x / u)) * u"
    by (simp add: rd_def Let_def u_def e_def x_def)
  ultimately have "rd x = x" using upos by simp
  then show ?thesis by (simp add: x_def)
qed

lemma rd_of_int: "\<bar>m\<bar> < 2 ^ 53 \<Longrightarrow> rd (of_int m) = of_int m"
  using rd_exact [of m 0] by simp

lemma cube_bound: "(99 / 100 :: rat) * ((1 + 1 / 2 ^ 53) * ((1 + 1 / 2 ^ 53) * (1 + 1 / 2 ^ 53))) < 1"
  by simp

lemma percentile_index_less:
  fixes n :: int and p :: rat
  assumes n: "1 \<le> n" and p: "0 < p" "p \<le> 99 / 100"
  shows "0 \<le> rd (rd (of_int n) * rd p)" and "\<lfloor>rd (rd (of_int n) * rd p)\<rfloor> < n"
proof -
  define eps :: rat where "eps = 1 + 1 / 2 ^ 53"
  have eps: "0 < eps" by (simp add: eps_def)
  from n have npos: "(0 :: rat) < of_int n" by simp
  have a: "0 < rd (of_int n)" "rd (of_int n) \<le> of_int n * eps"
    using rd_pos [OF npos] rd_upper [OF npos] by (simp_all add: eps_def)
  have c: "0 < rd p" "rd p \<le> p * eps"
    using rd_pos [OF p(1)] rd_upper [OF p(1)] by (simp_all add: eps_def)
  have xpos: "0 < rd (of_int n) * rd p" using a(1) c(1) by simp
  then show "0 \<le> rd (rd (of_int n) * rd p)" by (intro rd_nonneg) simp
  have "rd (rd (of_int n) * rd p) \<le> rd (of_int n) * rd p * eps"
    using rd_upper [OF xpos] by (simp add: eps_def)
  also have "\<dots> \<le> (of_int n * eps) * (p * eps) * eps"
    using a c eps by (intro mult_right_mono mult_mono) simp_all
  also have "\<dots> = of_int n * (p * (eps * (eps * eps)))" by simp
  also have "\<dots> \<le> of_int n * (99 / 100 * (eps * (eps * eps)))"
    using npos p(2) eps by (intro mult_left_mono mult_right_mono) simp_all
  also have "\<dots> < of_int n * 1"
    using npos cube_bound unfolding eps_def by (intro mult_strict_left_mono) simp_all
  finally have "rd (rd (of_int n) * rd p) < of_int n" by simp
  then show "\<lfloor>rd (rd (of_int n) * rd p)\<rfloor> < n" by (simp add: floor_less_iff)
qed

lemma percentile_index_exact:
  fixes n P :: int and c :: rat
  assumes n: "1 \<le> n" "n < 2 ^ 44" and P: "0 \<le> P" "P \<le> 100"
    and c: "0 < c" "\<bar>c - of_int P / 100\<bar> \<le> 1 / 2 ^ 53" "of_int P / 100 - c \<le> c / 2 ^ 54"
  shows "\<lfloor>rd (of_int n * c)\<rfloor> = n * P div 100"
proof -
  define x :: rat where "x = of_int n * c"
  define k where "k = n * P div 100"
  define r where "r = n * P mod 100"
  define np :: rat where "np = of_int n * (of_int P / 100)"
  from n have npos: "(0 :: rat) < of_int n" by simp
  from n(2) have "(of_int n :: rat) < of_int (2 ^ 44)" by (simp only: of_int_less_iff)
  then have nlt: "(of_int n :: rat) < 2 ^ 44" by simp
  have xpos: "0 < x" using npos c(1) by (simp add: x_def)
  have "n * P = 100 * k + r" by (simp add: k_def r_def)
  then have "(of_int (n * P) :: rat) = of_int (100 * k + r)" by simp
  then have np_eq: "np = of_int k + of_int r / 100" by (simp add: np_def field_simps)
  have r: "0 \<le> r" "r < 100" by (simp_all add: r_def)
  from r(2) have "r \<le> 99" by simp
  then have "(of_int r :: rat) \<le> of_int 99" by (simp only: of_int_le_iff)
  then have r99: "(of_int r :: rat) \<le> 99" by simp
  have "x - np = of_int n * (c - of_int P / 100)"
    by (simp add: x_def np_def right_diff_distrib)
  then have "\<bar>x - np\<bar> = \<bar>of_int n\<bar> * \<bar>c - of_int P / 100\<bar>"
    by (simp only: abs_mult)
  also have "\<dots> = of_int n * \<bar>c - of_int P / 100\<bar>"
    using npos by simp
  also have "\<dots> \<le> of_int n * (1 / 2 ^ 53)"
    using npos c(2) by (intro mult_left_mono) simp_all
  finally have xnp: "\<bar>x - np\<bar> \<le> of_int n / 2 ^ 53" by simp
  have n9: "(of_int n :: rat) / 2 ^ 53 < 1 / 2 ^ 9"
    using nlt by (simp add: field_simps)
  from xnp n9 have xlt: "x < np + 1 / 2 ^ 9" by linarith
  have "np \<le> of_int n * 1"
    unfolding np_def using npos P
    by (intro mult_left_mono) (simp_all add: field_simps)
  with nlt have "np < 2 ^ 44" by simp
  with xlt have x45: "x < 2 ^ 45" by simp
  then have x8: "x / 2 ^ 53 < 1 / 2 ^ 8" by (simp add: field_simps)
  note err = rd_error [OF xpos]
  have upper: "rd x < of_int k + 1"
  proof -
    from err have "rd x \<le> x + x / 2 ^ 53" by linarith
    with xlt x8 have "rd x < np + 1 / 2 ^ 9 + 1 / 2 ^ 8" by linarith
    also have "np \<le> of_int k + 99 / 100" using r99 by (simp add: np_eq)
    finally show ?thesis by simp
  qed
  have lower: "of_int k \<le> rd x"
  proof (cases "r = 0")
    case False
    with r(1) have "1 \<le> r" by simp
    then have "(of_int 1 :: rat) \<le> of_int r" by (simp only: of_int_le_iff)
    then have "of_int k + 1 / 100 \<le> np" by (simp add: np_eq)
    moreover from err have "x - x / 2 ^ 53 \<le> rd x" by linarith
    moreover from xnp n9 have "np - 1 / 2 ^ 9 < x" by linarith
    ultimately have "of_int k + 1 / 100 - 1 / 2 ^ 9 - 1 / 2 ^ 8 < rd x"
      using x8 by linarith
    then show ?thesis by simp
  next
    case True
    then have npk: "np = of_int k" by (simp add: np_eq)
    define e where "e = ilog2 x"
    define u :: rat where "u = 2 powi (e - 52)"
    have upos: "0 < u" by (simp add: u_def)
    have "(2 :: rat) powi e \<le> x" using ilog2_bounds(1) [OF xpos] by (simp add: e_def)
    also have "x < 2 powi 45" using x45 by simp
    finally have "e < 45" by (rule powi_less_imp_exp_less)
    then have d: "0 \<le> 52 - e" by simp
    have "1 / u = (2 :: rat) powi (52 - e)"
      by (simp add: u_def power_int_diff)
    also have "\<dots> = 2 ^ nat (52 - e)" using d by (simp add: power_int_def)
    finally have inv: "1 / u = of_int (2 ^ nat (52 - e))" by simp
    define K where "K = k * 2 ^ nat (52 - e)"
    have "(of_int K :: rat) = of_int k * (1 / u)"
      unfolding inv by (simp add: K_def)
    then have K: "(of_int K :: rat) = of_int k / u" by simp
    have rdx: "rd x = of_int (round_half_even (x / u)) * u"
      using xpos by (simp add: rd_def Let_def u_def e_def)
    have "x < 2 powi (e + 1)" using ilog2_bounds(2) [OF xpos] by (simp add: e_def)
    also have "\<dots> = u * 2 ^ 53" by (simp add: u_def power_int_add power_int_diff)
    finally have xu: "x / 2 ^ 54 < u / 2" by simp
    from c(3) npos have "of_int n * (of_int P / 100 - c) \<le> of_int n * (c / 2 ^ 54)"
      by (intro mult_left_mono) simp_all
    then have "np - x \<le> x / 2 ^ 54" by (simp add: np_def x_def right_diff_distrib)
    with xu npk have "of_int k - u / 2 < x" by linarith
    then have "(of_int k - u / 2) / u < x / u" using upos by (rule divide_strict_right_mono)
    then have "of_int K - 1 / 2 < x / u" using upos by (simp add: K diff_divide_distrib)
    then have "K \<le> round_half_even (x / u)" by (rule round_half_even_ge)
    then have "(of_int K :: rat) \<le> of_int (round_half_even (x / u))" by (simp only: of_int_le_iff)
    then have "of_int K * u \<le> rd x" unfolding rdx using upos by (intro mult_right_mono) simp_all
    then show ?thesis using upos by (simp add: K)
  qed
  from lower upper have "\<lfloor>rd x\<rfloor> = k" by (intro floor_unique) simp_all
  then show ?thesis by (simp add: x_def k_def)
qed

lemma rd_literals:
  "rd (5 / 10) = 1 / 2"
  "rd (9 / 10) = 8106479329266893 / 2 ^ 53"
  "rd (99 / 100) = 8917127262193582 / 2 ^ 53"
  by code_simp+

lemma percentile_indices_exact:
  assumes "1 \<le> n" "n < 2 ^ 44"
  shows "\<lfloor>rd (rd (of_int n) * rd (5 / 10))\<rfloor> = n * 50 div 100"
    and "\<lfloor>rd (rd (of_int n) * rd (9 / 10))\<rfloor> = n * 90 div 100"
    and "\<lfloor>rd (rd (of_int n) * rd (99 / 100))\<rfloor> = n * 99 div 100"
proof -
  from assms have "\<bar>n\<bar> < 2 ^ 53" by simp
  then have n: "rd (of_int n) = of_int n" by (rule rd_of_int)
  show "\<lfloor>rd (rd (of_int n) * rd (5 / 10))\<rfloor> = n * 50 div 100"
    unfolding n rd_literals by (rule percentile_index_exact [OF assms]) simp_all
  show "\<lfloor>rd (rd (of_int n) * rd (9 / 10))\<rfloor> = n * 90 div 100"
    unfolding n rd_literals by (rule percentile_index_exact [OF assms]) simp_all
  show "\<lfloor>rd (rd (of_int n) * rd (99 / 100))\<rfloor> = n * 99 div 100"
    unfolding n rd_literals by (rule percentile_index_exact [OF assms]) simp_all
qed

section \<open>The statistics reporter\<close>

lemma accumulate_Inr: "accumulate xs init = Inr s \<Longrightarrow> s = init + sum_list xs"
proof (induction xs arbitrary: init)
  case Nil
  then show ?case by simp
next
  case (Cons x xs)
  from Cons.prems have "accumulate xs (init + x) = Inr s"
    by (simp add: ll_add_def split: if_splits)
  from Cons.IH [OF this] show ?case by simp
qed

lemma accumulate_defined:
  "\<forall>x\<in>set xs. 0 \<le> x \<Longrightarrow> 0 \<le> init \<Longrightarrow> init + sum_list xs \<le> LLONG_MAX \<Longrightarrow>
   accumulate xs init = Inr (init + sum_list xs)"
proof (induction xs arbitrary: init)
  case Nil
  then show ?case by simp
next
  case (Cons x xs)
  from Cons.prems(1) have "0 \<le> sum_list xs" by (intro sum_list_nonneg) simp
  with Cons.prems have "is_long_long (init + x)"
    by (simp add: is_long_long_def LLONG_MIN_def LLONG_MAX_def)
  moreover from Cons.prems have "accumulate xs (init + x) = Inr (init + x + sum_list xs)"
    by (intro Cons.IH) (simp_all add: add.assoc)
  ultimately show ?case by (simp add: ll_add_def add.assoc)
qed

lemma sum_list_insort: "sum_list (insort x xs) = (x :: int) + sum_list xs"
  by (induction xs) simp_all

lemma sum_list_sort: "sum_list (sort xs) = sum_list (xs :: int list)"
  by (induction xs) (simp_all add: sum_list_insort)

lemma sorted_hd_Min: "sorted xs \<Longrightarrow> xs \<noteq> [] \<Longrightarrow> hd xs = Min (set (xs :: int list))"
  by (cases xs) (auto intro!: Min_eqI [symmetric])

lemma sorted_last_Max: "sorted xs \<Longrightarrow> xs \<noteq> [] \<Longrightarrow> last xs = Max (set (xs :: int list))"
proof (induction xs)
  case Nil
  then show ?case by simp
next
  case (Cons x xs)
  show ?case
  proof (cases "xs = []")
    case True
    then show ?thesis by simp
  next
    case False
    with Cons have l: "last xs = Max (set xs)" by simp
    from False have "last xs \<in> set xs" by simp
    with Cons.prems(1) have "x \<le> last xs" by auto
    with l False show ?thesis by (simp add: max_def)
  qed
qed

lemma percentile_vector_at:
  fixes v :: "int list" and p :: rat
  assumes v: "v \<noteq> []" "length v < 2 ^ 63" and p: "0 < p" "p \<le> 99 / 100"
  defines "x \<equiv> double_mul (double_of_int (int (length v))) (double_literal p)"
  shows "0 \<le> x" and "\<lfloor>x\<rfloor> \<le> int (length v) - 1"
    and "size_t_of_double x = Inr (nat \<lfloor>x\<rfloor>)"
    and "vector_at v x = Inr (v ! nat \<lfloor>x\<rfloor>)"
proof -
  from v(1) have n: "1 \<le> int (length v)" by (cases v) simp_all
  have x: "x = rd (rd (of_int (int (length v))) * rd p)"
    by (simp add: x_def double_mul_def double_of_int_def double_literal_def)
  from percentile_index_less [OF n p] show 0: "0 \<le> x" and lt: "\<lfloor>x\<rfloor> \<le> int (length v) - 1"
    by (simp_all add: x)
  from lt have "\<lfloor>x\<rfloor> < int (length v)" by simp
  then have "x < of_int (int (length v))" by (simp only: floor_less_iff)
  also from v(2) have "(of_int (int (length v)) :: rat) < 2 ^ 64" by simp
  finally have "x < 2 ^ 64" .
  with 0 show s: "size_t_of_double x = Inr (nat \<lfloor>x\<rfloor>)"
    by (simp add: size_t_of_double_def)
  from 0 lt have "nat \<lfloor>x\<rfloor> < length v" by linarith
  with s show "vector_at v x = Inr (v ! nat \<lfloor>x\<rfloor>)"
    by (simp add: vector_at_def)
qed

lemma print_latency_stats_nonempty:
  assumes v: "v \<noteq> []" "length v < 2 ^ 63" and acc: "accumulate (sort v) 0 = Inr s"
  shows "print_latency_stats v = Inr (sort v, Latency_statistics
    \<lparr>stat_count = int (length v),
     stat_mean = double_div (double_of_int (sum_list v)) (double_of_int (int (length v))),
     stat_min = hd (sort v),
     stat_p50 = sort v ! nat \<lfloor>double_mul (double_of_int (int (length v))) (double_literal (50 / 100))\<rfloor>,
     stat_p90 = sort v ! nat \<lfloor>double_mul (double_of_int (int (length v))) (double_literal (90 / 100))\<rfloor>,
     stat_p99 = sort v ! nat \<lfloor>double_mul (double_of_int (int (length v))) (double_literal (99 / 100))\<rfloor>,
     stat_max = last (sort v)\<rparr>)"
proof -
  have "set (sort v) = set v" by simp
  with v(1) have "set (sort v) \<noteq> {}" by simp
  then have "sort v \<noteq> []" by (simp only: set_empty not_False_eq_True)
  moreover from v(2) have "length (sort v) < 2 ^ 63" by simp
  ultimately have sv: "sort v \<noteq> []" "length (sort v) < 2 ^ 63" .
  from accumulate_Inr [OF acc] have s: "s = sum_list v" by (simp add: sum_list_sort)
  have p50: "vector_at (sort v) (double_mul (double_of_int (int (length v))) (double_literal (50 / 100)))
      = Inr (sort v ! nat \<lfloor>double_mul (double_of_int (int (length v))) (double_literal (50 / 100))\<rfloor>)"
    using percentile_vector_at(4) [OF sv, of "50 / 100"] by simp
  have p90: "vector_at (sort v) (double_mul (double_of_int (int (length v))) (double_literal (90 / 100)))
      = Inr (sort v ! nat \<lfloor>double_mul (double_of_int (int (length v))) (double_literal (90 / 100))\<rfloor>)"
    using percentile_vector_at(4) [OF sv, of "90 / 100"] by simp
  have p99: "vector_at (sort v) (double_mul (double_of_int (int (length v))) (double_literal (99 / 100)))
      = Inr (sort v ! nat \<lfloor>double_mul (double_of_int (int (length v))) (double_literal (99 / 100))\<rfloor>)"
    using percentile_vector_at(4) [OF sv, of "99 / 100"] by simp
  from v(1) acc s show ?thesis
    unfolding print_latency_stats_def Let_def
    by (simp only: if_False length_sort sum.case p50 p90 p99)
qed

section \<open>The claims about the statistics\<close>

text \<open>
  C6 (the statistics). For every non-empty sample sequence (whose sum is a \<^verbatim>\<open>long long\<close>),
  the reporter sorts the sequence ascending and reports the count, the mean as the
  \<^verbatim>\<open>double\<close> quotient of sum and count, the first element of the sorted sequence (the
  minimum) and the last (the maximum), and for 50, 90 and 99 per cent the element of the
  sorted sequence at the index \<open>count * p\<close> truncated, with no interpolation. The product
  is a \<^verbatim>\<open>double\<close> product: below \<open>2\<^sup>4\<^sup>4\<close> samples the index is exactly \<open>\<lfloor>count * p\<rfloor>\<close>, and
  while sum and count stay below \<open>2\<^sup>5\<^sup>3\<close> the mean is the \<^verbatim>\<open>double\<close> nearest to the exact
  quotient. The samples 10, 20, 30, 40 give count 4, mean 25, minimum 10, maximum 40 and the
  median \<open>sorted[2] = 30\<close>.
\<close>

theorem print_latency_stats_computes:
  assumes "v \<noteq> []" and "length v < 2 ^ 63" and "accumulate (sort v) 0 = Inr s"
  shows "print_latency_stats v = Inr (sort v, Latency_statistics
      \<lparr>stat_count = int (length v),
       stat_mean = double_div (double_of_int (sum_list v)) (double_of_int (int (length v))),
       stat_min = hd (sort v),
       stat_p50 = sort v ! nat \<lfloor>double_mul (double_of_int (int (length v))) (double_literal (50 / 100))\<rfloor>,
       stat_p90 = sort v ! nat \<lfloor>double_mul (double_of_int (int (length v))) (double_literal (90 / 100))\<rfloor>,
       stat_p99 = sort v ! nat \<lfloor>double_mul (double_of_int (int (length v))) (double_literal (99 / 100))\<rfloor>,
       stat_max = last (sort v)\<rparr>)
    \<and> sorted (sort v) \<and> mset (sort v) = mset v
    \<and> hd (sort v) = Min (set v) \<and> last (sort v) = Max (set v)
    \<and> (length v < 2 ^ 44 \<longrightarrow>
         \<lfloor>double_mul (double_of_int (int (length v))) (double_literal (50 / 100))\<rfloor>
           = \<lfloor>(of_int (int (length v)) :: rat) * (50 / 100)\<rfloor>
       \<and> \<lfloor>double_mul (double_of_int (int (length v))) (double_literal (90 / 100))\<rfloor>
           = \<lfloor>(of_int (int (length v)) :: rat) * (90 / 100)\<rfloor>
       \<and> \<lfloor>double_mul (double_of_int (int (length v))) (double_literal (99 / 100))\<rfloor>
           = \<lfloor>(of_int (int (length v)) :: rat) * (99 / 100)\<rfloor>)
    \<and> (\<bar>sum_list v\<bar> < 2 ^ 53 \<and> length v < 2 ^ 53 \<longrightarrow>
         double_div (double_of_int (sum_list v)) (double_of_int (int (length v)))
           = rd (of_int (sum_list v) / of_int (int (length v))))
    \<and> print_latency_stats [10, 20, 30, 40] = Inr ([10, 20, 30, 40], Latency_statistics
         \<lparr>stat_count = 4, stat_mean = 25, stat_min = 10,
          stat_p50 = 30, stat_p90 = 40, stat_p99 = 40, stat_max = 40\<rparr>)"
proof -
  let ?n = "int (length v)"
  have sv: "sort v \<noteq> []"
  proof -
    have "set (sort v) = set v" by simp
    with assms(1) have "set (sort v) \<noteq> {}" by simp
    then show ?thesis by (simp only: set_empty not_False_eq_True)
  qed
  have n1: "1 \<le> ?n" using assms(1) by (cases v) simp_all
  have exact: "\<lfloor>double_mul (double_of_int ?n) (double_literal (50 / 100))\<rfloor>
           = \<lfloor>(of_int ?n :: rat) * (50 / 100)\<rfloor>
       \<and> \<lfloor>double_mul (double_of_int ?n) (double_literal (90 / 100))\<rfloor>
           = \<lfloor>(of_int ?n :: rat) * (90 / 100)\<rfloor>
       \<and> \<lfloor>double_mul (double_of_int ?n) (double_literal (99 / 100))\<rfloor>
           = \<lfloor>(of_int ?n :: rat) * (99 / 100)\<rfloor>"
    if "length v < 2 ^ 44"
  proof -
    from that have n2: "?n < 2 ^ 44" by simp
    have fl: "\<lfloor>(of_int ?n :: rat) * (of_int P / 100)\<rfloor> = ?n * P div 100" for P :: int
    proof -
      have "(of_int ?n :: rat) * (of_int P / 100) = of_int (?n * P) / of_int 100" by simp
      then show ?thesis by (simp only: floor_divide_of_int_eq)
    qed
    from fl [of 50] fl [of 90] fl [of 99] percentile_indices_exact [OF n1 n2] show ?thesis
      by (simp add: double_mul_def double_of_int_def double_literal_def)
  qed
  have mean: "double_div (double_of_int (sum_list v)) (double_of_int ?n)
      = rd (of_int (sum_list v) / of_int ?n)"
    if "\<bar>sum_list v\<bar> < 2 ^ 53 \<and> length v < 2 ^ 53"
  proof -
    from that have "\<bar>?n\<bar> < 2 ^ 53" and "\<bar>sum_list v\<bar> < 2 ^ 53" by simp_all
    then have "rd (of_int ?n) = of_int ?n" and "rd (of_int (sum_list v)) = of_int (sum_list v)"
      by (simp_all only: rd_of_int)
    then show ?thesis
      by (simp only: double_div_def double_of_int_def)
  qed
  have ex: "print_latency_stats [10, 20, 30, 40] = Inr ([10, 20, 30, 40], Latency_statistics
         \<lparr>stat_count = 4, stat_mean = 25, stat_min = 10,
          stat_p50 = 30, stat_p90 = 40, stat_p99 = 40, stat_max = 40\<rparr>)"
    by code_simp
  have srt: "sorted (sort v)" "mset (sort v) = mset v" by simp_all
  note mm = sorted_hd_Min [OF srt(1) sv] sorted_last_Max [OF srt(1) sv]
  from print_latency_stats_nonempty [OF assms] srt mm exact mean ex show ?thesis
    by simp
qed

theorem print_latency_stats_computes_witness:
  "[40, 10, 30, 20] \<noteq> ([] :: int list) \<and> length [40, 10, 30, 20 :: int] < 2 ^ 63
   \<and> accumulate (sort [40, 10, 30, 20]) 0 = Inr 100
   \<and> print_latency_stats [40, 10, 30, 20] = Inr ([10, 20, 30, 40], Latency_statistics
         \<lparr>stat_count = 4, stat_mean = 25, stat_min = 10,
          stat_p50 = 30, stat_p90 = 40, stat_p99 = 40, stat_max = 40\<rparr>)
   \<and> \<lfloor>double_mul (double_of_int 4) (double_literal (50 / 100))\<rfloor> = \<lfloor>(4 :: rat) * (50 / 100)\<rfloor>"
proof -
  have a: "[40, 10, 30, 20] \<noteq> ([] :: int list)" by simp
  have b: "length [40, 10, 30, 20 :: int] < 2 ^ 63" by simp
  have c: "accumulate (sort [40, 10, 30, 20]) 0 = Inr 100" by code_simp
  have d: "print_latency_stats [40, 10, 30, 20] = Inr ([10, 20, 30, 40], Latency_statistics
         \<lparr>stat_count = 4, stat_mean = 25, stat_min = 10,
          stat_p50 = 30, stat_p90 = 40, stat_p99 = 40, stat_max = 40\<rparr>)"
    by code_simp
  from print_latency_stats_computes [OF a b c] a b c d show ?thesis by simp
qed

text \<open>
  C7 (percentile indices in range). For every non-empty sample sequence (a vector, so of
  fewer than \<open>2\<^sup>6\<^sup>3\<close> elements) and each of the three percentiles, the index \<open>count * p\<close>,
  computed in \<^verbatim>\<open>double\<close> and truncated, lies between 0 and \<open>count - 1\<close>: the conversion to
  the index type is defined, and the element read is one of the sorted sequence.
\<close>

theorem percentile_index_in_range:
  assumes "v \<noteq> []" and "length v < 2 ^ 63" and "p \<in> {50 / 100, 90 / 100, 99 / 100}"
  shows "0 \<le> \<lfloor>double_mul (double_of_int (int (length v))) (double_literal p)\<rfloor>
    \<and> \<lfloor>double_mul (double_of_int (int (length v))) (double_literal p)\<rfloor> \<le> int (length v) - 1
    \<and> size_t_of_double (double_mul (double_of_int (int (length v))) (double_literal p))
        = Inr (nat \<lfloor>double_mul (double_of_int (int (length v))) (double_literal p)\<rfloor>)
    \<and> vector_at (sort v) (double_mul (double_of_int (int (length v))) (double_literal p))
        = Inr (sort v ! nat \<lfloor>double_mul (double_of_int (int (length v))) (double_literal p)\<rfloor>)"
proof -
  from assms(3) have p: "0 < p" "p \<le> 99 / 100" by auto
  have "set (sort v) = set v" by simp
  with assms(1) have "set (sort v) \<noteq> {}" by simp
  then have "sort v \<noteq> []" by (simp only: set_empty not_False_eq_True)
  moreover from assms(2) have "length (sort v) < 2 ^ 63" by simp
  ultimately have sv: "sort v \<noteq> []" "length (sort v) < 2 ^ 63" .
  from percentile_vector_at [OF sv p] show ?thesis by simp
qed

theorem percentile_index_in_range_witness:
  "[40, 10, 30, 20] \<noteq> ([] :: int list) \<and> length [40, 10, 30, 20 :: int] < 2 ^ 63
   \<and> (99 / 100 :: rat) \<in> {50 / 100, 90 / 100, 99 / 100}
   \<and> \<lfloor>double_mul (double_of_int (int (length [40, 10, 30, 20 :: int]))) (double_literal (99 / 100))\<rfloor> = 3
   \<and> vector_at (sort [40, 10, 30, 20])
        (double_mul (double_of_int (int (length [40, 10, 30, 20 :: int]))) (double_literal (99 / 100)))
        = Inr 40"
proof -
  have a: "[40, 10, 30, 20] \<noteq> ([] :: int list)" by simp
  have b: "length [40, 10, 30, 20 :: int] < 2 ^ 63" by simp
  have c: "(99 / 100 :: rat) \<in> {50 / 100, 90 / 100, 99 / 100}" by simp
  have d: "\<lfloor>double_mul (double_of_int (int (length [40, 10, 30, 20 :: int]))) (double_literal (99 / 100))\<rfloor> = 3"
    by code_simp
  have e: "sort [40, 10, 30, 20 :: int] ! nat 3 = 40" by code_simp
  from percentile_index_in_range [OF a b c] a b c d e show ?thesis by simp
qed

text \<open>
  C9 (no samples). On the empty sample sequence the reporter reports that no latencies were
  recorded and computes nothing: the sequence is returned as it is. On a non-empty sequence
  it never gives that report: it sorts the sequence and reports the statistics computed
  from it, the count, the mean, the minimum, the three percentile elements and the maximum
  (whenever the sum of the samples is a \<^verbatim>\<open>long long\<close>).
\<close>

theorem print_latency_stats_empty:
  "print_latency_stats [] = Inr ([], No_latencies_recorded)
   \<and> (v \<noteq> [] \<longrightarrow>
        (\<forall>v'. print_latency_stats v \<noteq> Inr (v', No_latencies_recorded))
      \<and> (length v < 2 ^ 63 \<longrightarrow> accumulate (sort v) 0 = Inr s \<longrightarrow>
           sorted (sort v) \<and> mset (sort v) = mset v \<and> s = sum_list v
         \<and> print_latency_stats v = Inr (sort v, Latency_statistics
              \<lparr>stat_count = int (length v),
               stat_mean = double_div (double_of_int (sum_list v)) (double_of_int (int (length v))),
               stat_min = hd (sort v),
               stat_p50 = sort v ! nat \<lfloor>double_mul (double_of_int (int (length v))) (double_literal (50 / 100))\<rfloor>,
               stat_p90 = sort v ! nat \<lfloor>double_mul (double_of_int (int (length v))) (double_literal (90 / 100))\<rfloor>,
               stat_p99 = sort v ! nat \<lfloor>double_mul (double_of_int (int (length v))) (double_literal (99 / 100))\<rfloor>,
               stat_max = last (sort v)\<rparr>)))"
proof (intro conjI impI allI)
  show "print_latency_stats [] = Inr ([], No_latencies_recorded)"
    by (simp add: print_latency_stats_def)
  show "print_latency_stats v \<noteq> Inr (v', No_latencies_recorded)" if "v \<noteq> []" for v'
    using that by (auto simp: print_latency_stats_def Let_def split: sum.splits)
  show "sorted (sort v)" and "mset (sort v) = mset v" by simp_all
  show "s = sum_list v" if "accumulate (sort v) 0 = Inr s"
    using accumulate_Inr [OF that] by (simp add: sum_list_sort)
  show "print_latency_stats v = Inr (sort v, Latency_statistics
      \<lparr>stat_count = int (length v),
       stat_mean = double_div (double_of_int (sum_list v)) (double_of_int (int (length v))),
       stat_min = hd (sort v),
       stat_p50 = sort v ! nat \<lfloor>double_mul (double_of_int (int (length v))) (double_literal (50 / 100))\<rfloor>,
       stat_p90 = sort v ! nat \<lfloor>double_mul (double_of_int (int (length v))) (double_literal (90 / 100))\<rfloor>,
       stat_p99 = sort v ! nat \<lfloor>double_mul (double_of_int (int (length v))) (double_literal (99 / 100))\<rfloor>,
       stat_max = last (sort v)\<rparr>)"
    if "v \<noteq> []" "length v < 2 ^ 63" "accumulate (sort v) 0 = Inr s"
    using that by (rule print_latency_stats_nonempty)
qed

theorem print_latency_stats_empty_witness:
  "print_latency_stats [] = Inr ([], No_latencies_recorded)
   \<and> [40, 10, 30, 20] \<noteq> ([] :: int list) \<and> length [40, 10, 30, 20 :: int] < 2 ^ 63
   \<and> accumulate (sort [40, 10, 30, 20]) 0 = Inr 100
   \<and> print_latency_stats [40, 10, 30, 20] \<noteq> Inr ([10, 20, 30, 40], No_latencies_recorded)
   \<and> (100 :: int) = sum_list [40, 10, 30, 20]
   \<and> print_latency_stats [40, 10, 30, 20] = Inr ([10, 20, 30, 40], Latency_statistics
         \<lparr>stat_count = 4, stat_mean = 25, stat_min = 10,
          stat_p50 = 30, stat_p90 = 40, stat_p99 = 40, stat_max = 40\<rparr>)"
proof -
  have a: "[40, 10, 30, 20] \<noteq> ([] :: int list)" by simp
  have b: "length [40, 10, 30, 20 :: int] < 2 ^ 63" by simp
  have c: "accumulate (sort [40, 10, 30, 20]) 0 = Inr 100" by code_simp
  have d: "print_latency_stats [40, 10, 30, 20] = Inr ([10, 20, 30, 40], Latency_statistics
         \<lparr>stat_count = 4, stat_mean = 25, stat_min = 10,
          stat_p50 = 30, stat_p90 = 40, stat_p99 = 40, stat_max = 40\<rparr>)"
    by code_simp
  from print_latency_stats_empty [of "[40, 10, 30, 20]" 100] a b c d show ?thesis by blast
qed

end
